theory Spec2Isabelle
  imports Complex_Main "HOL-Library.Log_Nat"
begin

section \<open>The animation timeline of src/src/animation.ts\<close>

text \<open>
  The embedding follows \<^verbatim>\<open>animation.ts\<close> function by function. Objects live in an
  explicit store: a node object is a reference (\<open>ref\<close>) into \<open>heap\<close>, and every
  assignment of the source is one update of the store, in the source's order, so that
  aliasing between the static chain (\<open>subNode\<close>) and the active-slot list
  (\<open>prevNode\<close>, \<open>nextNode\<close>, the timeline's head and tail) is what the code makes it.

  What the embedding abstracts:
  \<^item> the progress of a tick is computed in IEEE 754 double arithmetic, as JavaScript
    does (\<open>number\<close>, \<open>js_sub\<close>, \<open>js_div\<close>: rounding to nearest, ties to even, signed
    zeros, infinities and NaN); the arithmetic of the clock (\<open>now\<close>, \<open>resume\<close>) is the
    exact one on the reals, which is the double one wherever the exact result is a double,
    as in the runs evaluated below;
  \<^item> \<^verbatim>\<open>performance.now()\<close> is an input sequence \<open>perf\<close>: the \<open>k\<close>-th read returns
    \<open>perf k\<close>, and \<open>reads\<close> counts the reads made so far;
  \<^item> the frame driver is the queue \<open>rafPending\<close> of requested callbacks;
  \<^item> a promise is the state of its deferred (\<open>Pending\<close>, \<open>Resolved\<close>, \<open>Rejected e\<close>),
    settled at most once as a JavaScript promise is;
  \<^item> an effect or timing callback is a function that returns or throws, and does not
    call back into the timeline; each call is recorded in \<open>trace\<close>.
\<close>

subsection \<open>Numbers\<close>

text \<open>
  A JavaScript number is a double: \<open>Fin x\<close> is the finite double of value \<open>x\<close> (\<open>Fin 0\<close>
  is \<open>+0\<close>), \<open>NegZero\<close> is \<open>-0\<close>.
\<close>

datatype number = Fin real | PosInf | NegInf | NaN | NegZero

text \<open>
  Rounding a real to the nearest double, ties to even (\<open>to_double\<close>): \<open>ilog2 a\<close> is
  the binary exponent of \<open>a > 0\<close>; a double has 53 significant bits and an exponent of at
  least \<open>-1022\<close>, so the doubles around \<open>a\<close> are the multiples of
  \<open>pow2 (max (ilog2 a) (-1022) - 52)\<close>; a result of magnitude \<open>pow2 1024\<close> is an
  infinity, and a result that rounds to zero keeps the sign.
\<close>

definition ilog2 :: "real \<Rightarrow> int" where
  "ilog2 a = (if 1 \<le> a then bitlen \<lfloor>a\<rfloor> - 1 else - bitlen (\<lceil>1 / a\<rceil> - 1))"

definition pow2 :: "int \<Rightarrow> real" where
  "pow2 k = (if 0 \<le> k then 2 ^ nat k else 1 / 2 ^ nat (- k))"

definition round_even :: "real \<Rightarrow> int" where
  "round_even q =
     (let n = \<lfloor>q\<rfloor>; f = q - of_int n
      in if f < 1 / 2 then n else if 1 / 2 < f then n + 1 else if even n then n else n + 1)"

definition to_double :: "real \<Rightarrow> number" where
  "to_double x =
     (if x = 0 then Fin 0
      else
        (let a = \<bar>x\<bar>;
             e = max (ilog2 a) (- 1022);
             m = round_even (a / pow2 (e - 52))
         in if 1024 \<le> e \<or> (e = 1023 \<and> m = 9007199254740992)
            then (if 0 < x then PosInf else NegInf)
            else if m = 0 then (if 0 < x then Fin 0 else NegZero)
            else Fin (sgn x * of_int m * pow2 (e - 52))))"

text \<open>\<^verbatim>\<open>a - b\<close> on two finite doubles.\<close>

definition js_sub :: "real \<Rightarrow> real \<Rightarrow> number" where
  "js_sub a b = to_double (a - b)"

fun is_nan :: "number \<Rightarrow> bool" where
  "is_nan NaN = True"
| "is_nan x = False"

fun is_inf :: "number \<Rightarrow> bool" where
  "is_inf PosInf = True"
| "is_inf NegInf = True"
| "is_inf x = False"

fun is_zero :: "number \<Rightarrow> bool" where
  "is_zero (Fin x) = (x = 0)"
| "is_zero NegZero = True"
| "is_zero x = False"

fun negative :: "number \<Rightarrow> bool" where
  "negative (Fin x) = (x < 0)"
| "negative NegZero = True"
| "negative NegInf = True"
| "negative x = False"

fun magnitude :: "number \<Rightarrow> real" where
  "magnitude (Fin x) = x"
| "magnitude x = 0"

definition signed_inf :: "bool \<Rightarrow> number" where
  "signed_inf neg = (if neg then NegInf else PosInf)"

definition signed_zero :: "bool \<Rightarrow> number" where
  "signed_zero neg = (if neg then NegZero else Fin 0)"

text \<open>\<^verbatim>\<open>a / b\<close>: the sign of a zero or infinite result is the product of the signs.\<close>

definition js_div :: "number \<Rightarrow> number \<Rightarrow> number" where
  "js_div a b =
     (if is_nan a \<or> is_nan b then NaN
      else if is_inf a then (if is_inf b then NaN else signed_inf (negative a \<noteq> negative b))
      else if is_inf b then signed_zero (negative a \<noteq> negative b)
      else if is_zero b then (if is_zero a then NaN else signed_inf (negative a \<noteq> negative b))
      else if is_zero a then signed_zero (negative a \<noteq> negative b)
      else to_double (magnitude a / magnitude b))"

text \<open>\<^verbatim>\<open>Math.max(x, c)\<close> and \<^verbatim>\<open>Math.min(x, c)\<close> for a finite \<open>c\<close>; NaN is contagious.\<close>

fun js_max :: "number \<Rightarrow> real \<Rightarrow> number" where
  "js_max NaN c = NaN"
| "js_max PosInf c = PosInf"
| "js_max NegInf c = Fin c"
| "js_max NegZero c = (if c < 0 then NegZero else Fin c)"
| "js_max (Fin x) c = Fin (max x c)"

fun js_min :: "number \<Rightarrow> real \<Rightarrow> number" where
  "js_min NaN c = NaN"
| "js_min PosInf c = Fin c"
| "js_min NegInf c = NegInf"
| "js_min NegZero c = (if c < 0 then Fin c else NegZero)"
| "js_min (Fin x) c = Fin (min x c)"

text \<open>\<^verbatim>\<open>x >= c\<close>: false on NaN.\<close>

fun js_ge :: "number \<Rightarrow> real \<Rightarrow> bool" where
  "js_ge NaN c = False"
| "js_ge PosInf c = True"
| "js_ge NegInf c = False"
| "js_ge NegZero c = (c \<le> 0)"
| "js_ge (Fin x) c = (c \<le> x)"

subsection \<open>Wall time and the virtual clock\<close>

record wall =
  perf :: "nat \<Rightarrow> real"
  reads :: nat

definition performance_now :: "wall \<Rightarrow> real \<times> wall" where
  "performance_now w = (perf w (reads w), w\<lparr>reads := Suc (reads w)\<rparr>)"

record AnimationClock =
  pausedTime :: real
  isPaused :: bool
  offset :: real

definition new_AnimationClock :: AnimationClock where
  "new_AnimationClock = \<lparr>pausedTime = 0, isPaused = False, offset = 0\<rparr>"

definition Clock_now :: "AnimationClock \<Rightarrow> wall \<Rightarrow> real \<times> wall" where
  "Clock_now c w =
     (if isPaused c then (pausedTime c, w)
      else (let (t, w1) = performance_now w in (t - offset c, w1)))"

definition Clock_pause :: "AnimationClock \<Rightarrow> wall \<Rightarrow> AnimationClock \<times> wall" where
  "Clock_pause c w =
     (if \<not> isPaused c
      then (let (t, w1) = Clock_now c w in (c\<lparr>pausedTime := t, isPaused := True\<rparr>, w1))
      else (c, w))"

definition Clock_resume :: "AnimationClock \<Rightarrow> wall \<Rightarrow> AnimationClock \<times> wall" where
  "Clock_resume c w =
     (if isPaused c
      then (let (t, w1) = performance_now w
            in (c\<lparr>offset := offset c + (t - pausedTime c), isPaused := False\<rparr>, w1))
      else (c, w))"

definition Clock_reset :: "AnimationClock \<Rightarrow> AnimationClock" where
  "Clock_reset c = c\<lparr>pausedTime := 0, isPaused := False, offset := 0\<rparr>"

subsection \<open>Nodes, deferreds and the timeline state\<close>

type_synonym ref = nat
type_synonym deferred_id = nat
type_synonym thrown = nat

text \<open>
  A callback returns or throws: an \<open>Animator\<close> returns \<open>None\<close> or throws \<open>Some e\<close>, a
  \<open>TimingFunction\<close> returns \<open>Inr y\<close> or throws \<open>Inl e\<close>.
\<close>

type_synonym Animator = "number \<Rightarrow> number \<Rightarrow> thrown option"
type_synonym TimingFunction = "number \<Rightarrow> thrown + number"

record node =
  duration :: number
  animator :: "Animator option"
  timing :: "TimingFunction option"
  onError :: "deferred_id option"
  prevNode :: "ref option"
  nextNode :: "ref option"
  started :: bool
  startTime :: "real option"
  completed :: bool
  error :: bool
  subNode :: "ref option"
  onCompleted :: "deferred_id option"

datatype settled = Pending | Resolved | Rejected thrown

datatype event =
    TickCall ref real
  | TimingCall ref number
  | AnimatorCall ref number number
  | CompleteCall ref
  | OnCompletedCall ref

record timeline =
  heap :: "ref \<Rightarrow> node option"
  nextRef :: ref
  t_nextNode :: "ref option"
  t_tailNode :: "ref option"
  timer :: "nat option"
  clock :: AnimationClock
  isPolling :: bool
  deferreds :: "deferred_id \<Rightarrow> settled option"
  nextDeferred :: deferred_id
  world :: wall
  rafPending :: "nat list"
  rafNext :: nat
  trace :: "event list"

definition createTimeline :: "(nat \<Rightarrow> real) \<Rightarrow> timeline" where
  "createTimeline p =
     \<lparr>heap = Map.empty, nextRef = 0, t_nextNode = None, t_tailNode = None, timer = None,
      clock = new_AnimationClock, isPolling = False, deferreds = Map.empty,
      nextDeferred = 0, world = \<lparr>perf = p, reads = 0\<rparr>, rafPending = [], rafNext = 1, trace = []\<rparr>"

definition emit :: "event \<Rightarrow> timeline \<Rightarrow> timeline" where
  "emit e s = s\<lparr>trace := trace s @ [e]\<rparr>"

text \<open>Field reads and writes through a reference.\<close>

definition upd :: "ref \<Rightarrow> (node \<Rightarrow> node) \<Rightarrow> timeline \<Rightarrow> timeline" where
  "upd r f s = (case heap s r of None \<Rightarrow> s | Some n \<Rightarrow> s\<lparr>heap := (heap s)(r \<mapsto> f n)\<rparr>)"

definition get_prev :: "timeline \<Rightarrow> ref \<Rightarrow> ref option" where
  "get_prev s r = (case heap s r of None \<Rightarrow> None | Some n \<Rightarrow> prevNode n)"

definition get_next :: "timeline \<Rightarrow> ref \<Rightarrow> ref option" where
  "get_next s r = (case heap s r of None \<Rightarrow> None | Some n \<Rightarrow> nextNode n)"

definition get_sub :: "timeline \<Rightarrow> ref \<Rightarrow> ref option" where
  "get_sub s r = (case heap s r of None \<Rightarrow> None | Some n \<Rightarrow> subNode n)"

text \<open>The two functions of a deferred; a settled promise ignores both.\<close>

definition resolve :: "deferred_id \<Rightarrow> timeline \<Rightarrow> timeline" where
  "resolve d s =
     (if deferreds s d = Some Pending then s\<lparr>deferreds := (deferreds s)(d \<mapsto> Resolved)\<rparr> else s)"

definition reject :: "deferred_id \<Rightarrow> thrown \<Rightarrow> timeline \<Rightarrow> timeline" where
  "reject d e s =
     (if deferreds s d = Some Pending then s\<lparr>deferreds := (deferreds s)(d \<mapsto> Rejected e)\<rparr> else s)"

text \<open>\<^verbatim>\<open>this.timeline.clock.now()\<close>, threading the wall-time reads.\<close>

definition Timeline_clock_now :: "timeline \<Rightarrow> real \<times> timeline" where
  "Timeline_clock_now s = (let (t, w1) = Clock_now (clock s) (world s) in (t, s\<lparr>world := w1\<rparr>))"

subsection \<open>AnimationTimelineNodeImpl\<close>

definition Node_initializeAnimation :: "ref \<Rightarrow> timeline \<Rightarrow> timeline" where
  "Node_initializeAnimation this s =
     (let s1 = upd this (\<lambda>n. n\<lparr>started := True\<rparr>) s;
          (t, s2) = Timeline_clock_now s1
      in upd this (\<lambda>n. n\<lparr>startTime := Some t\<rparr>) s2)"

definition Node_calculateProgress :: "node \<Rightarrow> real \<Rightarrow> number" where
  "Node_calculateProgress n now =
     (case startTime n of
        None \<Rightarrow> NaN
      | Some st \<Rightarrow> js_min (js_max (js_div (js_sub now st) (duration n)) 0) 1)"

definition Node_applyAnimation :: "ref \<Rightarrow> number \<Rightarrow> timeline \<Rightarrow> thrown option \<times> timeline" where
  "Node_applyAnimation this progress s =
     (case heap s this of
        None \<Rightarrow> (None, s)
      | Some n \<Rightarrow>
          (case animator n of
             None \<Rightarrow> (None, s)
           | Some a \<Rightarrow>
               (case timing n of
                  None \<Rightarrow> (a progress progress, emit (AnimatorCall this progress progress) s)
                | Some f \<Rightarrow>
                    (let s1 = emit (TimingCall this progress) s
                     in case f progress of
                          Inl e \<Rightarrow> (Some e, s1)
                        | Inr timingProgress \<Rightarrow>
                            (a timingProgress progress,
                             emit (AnimatorCall this timingProgress progress) s1)))))"

definition Node_processAnimationFrame :: "ref \<Rightarrow> real \<Rightarrow> timeline \<Rightarrow> (thrown + bool) \<times> timeline" where
  "Node_processAnimationFrame this ts s =
     (case heap s this of
        None \<Rightarrow> (Inr False, s)
      | Some n \<Rightarrow>
          (let progress = Node_calculateProgress n ts
           in case Node_applyAnimation this progress s of
                (Some e, s1) \<Rightarrow> (Inl e, s1)
              | (None, s1) \<Rightarrow> (Inr (js_ge progress 1), s1)))"

definition Node_handleError :: "ref \<Rightarrow> thrown \<Rightarrow> timeline \<Rightarrow> timeline" where
  "Node_handleError this e s =
     (let s1 = upd this (\<lambda>n. n\<lparr>error := True\<rparr>) s
      in case heap s1 this of
           None \<Rightarrow> s1
         | Some n \<Rightarrow> (case onError n of None \<Rightarrow> s1 | Some d \<Rightarrow> reject d e s1))"

definition Node_tick :: "ref \<Rightarrow> real \<Rightarrow> timeline \<Rightarrow> bool \<times> timeline" where
  "Node_tick this ts s =
     (case heap s this of
        None \<Rightarrow> (True, s)
      | Some n \<Rightarrow>
          if completed n \<or> error n then (True, s)
          else
            (let s1 = (if \<not> started n then Node_initializeAnimation this s else s)
             in case Node_processAnimationFrame this ts s1 of
                  (Inr b, s2) \<Rightarrow> (b, s2)
                | (Inl e, s2) \<Rightarrow> (True, Node_handleError this e s2)))"

definition fire_onCompleted :: "ref \<Rightarrow> timeline \<Rightarrow> timeline" where
  "fire_onCompleted this s =
     (case heap s this of
        None \<Rightarrow> s
      | Some n \<Rightarrow>
          (case onCompleted n of
             None \<Rightarrow> s
           | Some d \<Rightarrow> resolve d (emit (OnCompletedCall this) s)))"

definition Node_updateTimelineReferences :: "ref \<Rightarrow> ref \<Rightarrow> timeline \<Rightarrow> timeline" where
  "Node_updateTimelineReferences this nd s =
     (let s1 = (if t_tailNode s = Some this then s\<lparr>t_tailNode := Some nd\<rparr> else s)
      in if t_nextNode s1 = Some this then s1\<lparr>t_nextNode := Some nd\<rparr> else s1)"

definition Node_updateNodeLinks :: "ref \<Rightarrow> ref \<Rightarrow> timeline \<Rightarrow> timeline" where
  "Node_updateNodeLinks this nd s =
     (let s1 = (case get_prev s this of
                  Some p \<Rightarrow> upd p (\<lambda>n. n\<lparr>nextNode := Some nd\<rparr>) s
                | None \<Rightarrow> s)
      in case get_next s1 this of
           Some q \<Rightarrow> upd q (\<lambda>n. n\<lparr>prevNode := Some nd\<rparr>) s1
         | None \<Rightarrow> s1)"

definition Node_replace :: "ref \<Rightarrow> ref \<Rightarrow> timeline \<Rightarrow> timeline" where
  "Node_replace this nd s =
     (let s1 = upd nd (\<lambda>n. n\<lparr>prevNode := get_prev s this\<rparr>) s;
          s2 = upd nd (\<lambda>n. n\<lparr>nextNode := get_next s1 this\<rparr>) s1;
          s3 = Node_updateTimelineReferences this nd s2;
          s4 = Node_updateNodeLinks this nd s3
      in fire_onCompleted this s4)"

definition Node_remove :: "ref \<Rightarrow> timeline \<Rightarrow> timeline" where
  "Node_remove this s =
     (let s1 = (case get_prev s this of
                  Some p \<Rightarrow> upd p (\<lambda>n. n\<lparr>nextNode := get_next s this\<rparr>) s
                | None \<Rightarrow> s\<lparr>t_nextNode := get_next s this\<rparr>);
          s2 = (case get_next s1 this of
                  Some q \<Rightarrow> upd q (\<lambda>n. n\<lparr>prevNode := get_prev s1 this\<rparr>) s1
                | None \<Rightarrow> s1);
          s3 = (if t_tailNode s2 = Some this then s2\<lparr>t_tailNode := get_prev s2 this\<rparr> else s2);
          s4 = (if t_nextNode s3 = Some this then s3\<lparr>t_nextNode := get_next s3 this\<rparr> else s3)
      in fire_onCompleted this s4)"

definition Node_complete :: "ref \<Rightarrow> timeline \<Rightarrow> timeline" where
  "Node_complete this s =
     (case heap s this of
        None \<Rightarrow> s
      | Some n \<Rightarrow>
          if completed n then s
          else
            (let s1 = upd this (\<lambda>n. n\<lparr>completed := True\<rparr>) s
             in case subNode n of
                  Some nd \<Rightarrow> if \<not> error n then Node_replace this nd s1 else Node_remove this s1
                | None \<Rightarrow> Node_remove this s1))"

text \<open>
  \<^verbatim>\<open>_revokeSubNodes\<close> walks the static chain with a \<^verbatim>\<open>while\<close> loop; on a cyclic
  chain it does not return, which is the value \<open>None\<close>.
\<close>

partial_function (option) revokeSubNodes_loop :: "ref option \<Rightarrow> timeline \<Rightarrow> timeline option" where
  "revokeSubNodes_loop current s =
     (case current of
        None \<Rightarrow> Some s
      | Some c \<Rightarrow>
          (case heap s c of
             None \<Rightarrow> Some s
           | Some n \<Rightarrow>
               (let s1 = (if \<not> completed n
                          then Node_remove c (upd c (\<lambda>n. n\<lparr>completed := True\<rparr>) s)
                          else s)
                in revokeSubNodes_loop (get_sub s1 c) s1)))"

declare revokeSubNodes_loop.simps [code]

definition Node_revokeSubNodes :: "ref \<Rightarrow> timeline \<Rightarrow> timeline option" where
  "Node_revokeSubNodes this s =
     (case get_sub s this of
        None \<Rightarrow> Some s
      | Some nd \<Rightarrow> revokeSubNodes_loop (Some nd) s)"

definition Node_revoke :: "ref \<Rightarrow> timeline \<Rightarrow> timeline option" where
  "Node_revoke this s =
     (case heap s this of
        None \<Rightarrow> Some s
      | Some n \<Rightarrow>
          (let s1 = (if \<not> completed n
                     then Node_remove this (upd this (\<lambda>n. n\<lparr>completed := True\<rparr>) s)
                     else s)
           in Node_revokeSubNodes this s1))"

text \<open>The getter \<^verbatim>\<open>get error()\<close> of a node.\<close>

definition Node_error :: "timeline \<Rightarrow> ref \<Rightarrow> bool" where
  "Node_error s r = (case heap s r of None \<Rightarrow> False | Some n \<Rightarrow> error n)"

definition Node_completed :: "timeline \<Rightarrow> ref \<Rightarrow> bool" where
  "Node_completed s r = (case heap s r of None \<Rightarrow> False | Some n \<Rightarrow> completed n)"

subsection \<open>AnimationTimelineImpl\<close>

datatype AnimationInitial =
    InitObject number "Animator option" "TimingFunction option"
  | InitTuple number "Animator option" "TimingFunction option"
  | InitNumber number

type_synonym segment = "number \<times> Animator option \<times> TimingFunction option"

datatype usage_error = EmptyInitials

fun normalizeAnimationInitial :: "AnimationInitial \<Rightarrow> segment" where
  "normalizeAnimationInitial (InitNumber d) = (d, None, None)"
| "normalizeAnimationInitial (InitTuple d a t) = (d, a, t)"
| "normalizeAnimationInitial (InitObject d a t) = (d, a, t)"

definition Timeline_normalizeAnimationInitials :: "AnimationInitial list \<Rightarrow> segment list" where
  "Timeline_normalizeAnimationInitials inits = map normalizeAnimationInitial inits"

text \<open>\<^verbatim>\<open>deferred()\<close> and \<^verbatim>\<open>new AnimationTimelineNodeImpl(...)\<close> allocate fresh objects.\<close>

definition deferred :: "timeline \<Rightarrow> deferred_id \<times> timeline" where
  "deferred s =
     (nextDeferred s,
      s\<lparr>deferreds := (deferreds s)(nextDeferred s \<mapsto> Pending),
        nextDeferred := Suc (nextDeferred s)\<rparr>)"

definition new_Node ::
  "segment \<Rightarrow> deferred_id option \<Rightarrow> ref option \<Rightarrow> ref option \<Rightarrow> timeline \<Rightarrow> ref \<times> timeline" where
  "new_Node init oe p nx s =
     (nextRef s,
      s\<lparr>heap := (heap s)(nextRef s \<mapsto>
            \<lparr>duration = fst init, animator = fst (snd init), timing = snd (snd init),
             onError = oe, prevNode = p, nextNode = nx, started = False, startTime = None,
             completed = False, error = False, subNode = None, onCompleted = None\<rparr>),
        nextRef := Suc (nextRef s)\<rparr>)"

definition Timeline_createRootNode :: "segment \<Rightarrow> deferred_id \<Rightarrow> timeline \<Rightarrow> ref \<times> timeline" where
  "Timeline_createRootNode init rej s = new_Node init (Some rej) (t_tailNode s) None s"

definition Timeline_linkRootNode :: "ref \<Rightarrow> timeline \<Rightarrow> timeline" where
  "Timeline_linkRootNode rootNode s =
     (let s1 = (if t_nextNode s = None then s\<lparr>t_nextNode := Some rootNode\<rparr> else s);
          s2 = (case t_tailNode s1 of
                  Some tailNode \<Rightarrow> upd tailNode (\<lambda>n. n\<lparr>nextNode := Some rootNode\<rparr>) s1
                | None \<Rightarrow> s1)
      in s2\<lparr>t_tailNode := Some rootNode\<rparr>)"

fun linkChildNodes_loop :: "ref \<Rightarrow> segment list \<Rightarrow> deferred_id \<Rightarrow> timeline \<Rightarrow> ref \<times> timeline" where
  "linkChildNodes_loop currentNode [] rej s = (currentNode, s)"
| "linkChildNodes_loop currentNode (init # inits) rej s =
     (let (childNode, s1) = new_Node init (Some rej) None None s;
          s2 = upd currentNode (\<lambda>n. n\<lparr>subNode := Some childNode\<rparr>) s1
      in linkChildNodes_loop childNode inits rej s2)"

definition Timeline_createAndLinkChildNodes ::
  "ref \<Rightarrow> segment list \<Rightarrow> deferred_id \<Rightarrow> timeline \<Rightarrow> timeline" where
  "Timeline_createAndLinkChildNodes rootNode inits d s =
     (let (currentNode, s1) = linkChildNodes_loop rootNode inits d s
      in upd currentNode (\<lambda>n. n\<lparr>onCompleted := Some d\<rparr>) s1)"

text \<open>The frame driver: \<^verbatim>\<open>requestAnimationFrame\<close> hands out non-zero handles.\<close>

definition requestAnimationFrame :: "timeline \<Rightarrow> nat \<times> timeline" where
  "requestAnimationFrame s =
     (rafNext s, s\<lparr>rafPending := rafPending s @ [rafNext s], rafNext := Suc (rafNext s)\<rparr>)"

definition cancelAnimationFrame :: "nat \<Rightarrow> timeline \<Rightarrow> timeline" where
  "cancelAnimationFrame i s = s\<lparr>rafPending := removeAll i (rafPending s)\<rparr>"

text \<open>\<^verbatim>\<open>if (this._timer)\<close>: a handle that is set and not zero.\<close>

definition truthy :: "nat option \<Rightarrow> bool" where
  "truthy t = (case t of None \<Rightarrow> False | Some i \<Rightarrow> i \<noteq> 0)"

definition Timeline_paused :: "timeline \<Rightarrow> bool" where
  "Timeline_paused s = isPaused (clock s)"

definition Timeline_stopAnimation :: "timeline \<Rightarrow> timeline" where
  "Timeline_stopAnimation s =
     (case timer s of
        None \<Rightarrow> s
      | Some i \<Rightarrow> if i \<noteq> 0 then (cancelAnimationFrame i s)\<lparr>timer := None\<rparr> else s)"

definition Timeline_resetState :: "timeline \<Rightarrow> timeline" where
  "Timeline_resetState s =
     s\<lparr>clock := Clock_reset (clock s), t_nextNode := None, t_tailNode := None,
       isPolling := False\<rparr>"

definition Timeline_reset :: "timeline \<Rightarrow> timeline" where
  "Timeline_reset s = Timeline_resetState (Timeline_stopAnimation s)"

definition Timeline_cleanup :: "timeline \<Rightarrow> timeline" where
  "Timeline_cleanup s = Timeline_reset (s\<lparr>timer := None\<rparr>)"

text \<open>
  \<^verbatim>\<open>_processNodes\<close>: the traversal follows \<open>nextNode\<close> and does not return on a cyclic
  list. The JavaScript \<^verbatim>\<open>Set\<close> is the list of its members in insertion order.
\<close>

partial_function (option) processNodes_loop ::
  "ref option \<Rightarrow> real \<Rightarrow> ref list \<Rightarrow> timeline \<Rightarrow> (ref list \<times> timeline) option" where
  "processNodes_loop currentNode ts nodesToComplete s =
     (case currentNode of
        None \<Rightarrow> Some (nodesToComplete, s)
      | Some c \<Rightarrow>
          (let (isDone, s1) = Node_tick c ts (emit (TickCall c ts) s);
               nodes1 = (if isDone \<and> c \<notin> set nodesToComplete
                         then nodesToComplete @ [c] else nodesToComplete)
           in processNodes_loop (get_next s1 c) ts nodes1 s1))"

declare processNodes_loop.simps [code]

definition Timeline_processNodes :: "real \<Rightarrow> timeline \<Rightarrow> (ref list \<times> timeline) option" where
  "Timeline_processNodes ts s = processNodes_loop (t_nextNode s) ts [] s"

fun Timeline_completeNodes :: "ref list \<Rightarrow> timeline \<Rightarrow> timeline" where
  "Timeline_completeNodes [] s = s"
| "Timeline_completeNodes (nd # nodes) s =
     Timeline_completeNodes nodes (Node_complete nd (emit (CompleteCall nd) s))"

definition Timeline_poll :: "timeline \<Rightarrow> (bool \<times> timeline) option" where
  "Timeline_poll s =
     (if isPaused (clock s) \<or> t_nextNode s = None then Some (False, s)
      else
        (let (now, s1) = Timeline_clock_now s
         in case Timeline_processNodes now s1 of
              None \<Rightarrow> None
            | Some (nodesToComplete, s2) \<Rightarrow>
                (let s3 = (if 0 < length nodesToComplete
                           then Timeline_completeNodes nodesToComplete s2 else s2);
                     hasMoreNodes = (t_nextNode s3 \<noteq> None);
                     s4 = (if \<not> hasMoreNodes then s3\<lparr>isPolling := False\<rparr> else s3)
                 in Some (hasMoreNodes, s4))))"

text \<open>The closure \<^verbatim>\<open>loop\<close> of \<^verbatim>\<open>_launch\<close>: the callback the frame driver runs.\<close>

definition Timeline_loop :: "timeline \<Rightarrow> timeline option" where
  "Timeline_loop s =
     (case Timeline_poll s of
        None \<Rightarrow> None
      | Some (hasMore, s1) \<Rightarrow>
          if hasMore then (let (i, s2) = requestAnimationFrame s1 in Some (s2\<lparr>timer := Some i\<rparr>))
          else Some (Timeline_cleanup s1))"

definition Timeline_launch :: "timeline \<Rightarrow> timeline" where
  "Timeline_launch s =
     (if truthy (timer s) then s
      else (let (i, s1) = requestAnimationFrame (s\<lparr>isPolling := True\<rparr>)
            in s1\<lparr>timer := Some i\<rparr>))"

definition Timeline_pause :: "timeline \<Rightarrow> timeline" where
  "Timeline_pause s =
     (case timer s of
        None \<Rightarrow> s
      | Some i \<Rightarrow>
          if \<not> Timeline_paused s
          then (let s1 = cancelAnimationFrame i s;
                    (c, w) = Clock_pause (clock s1) (world s1)
                in s1\<lparr>clock := c, world := w, timer := None\<rparr>)
          else s)"

definition Timeline_start :: "timeline \<Rightarrow> timeline" where
  "Timeline_start s =
     (if timer s = None \<and> \<not> Timeline_paused s
      then Timeline_launch (s\<lparr>clock := Clock_reset (clock s)\<rparr>)
      else s)"

definition Timeline_resume :: "timeline \<Rightarrow> timeline" where
  "Timeline_resume s =
     (if Timeline_paused s
      then (let (c, w) = Clock_resume (clock s) (world s)
            in Timeline_launch (s\<lparr>clock := c, world := w\<rparr>))
      else s)"

definition Timeline_enqueue ::
  "AnimationInitial list \<Rightarrow> timeline \<Rightarrow> (usage_error + ref \<times> deferred_id) \<times> timeline" where
  "Timeline_enqueue inits s =
     (if length inits < 1 then (Inl EmptyInitials, s)
      else
        (case Timeline_normalizeAnimationInitials inits of
           [] \<Rightarrow> (Inl EmptyInitials, s)
         | first # rest \<Rightarrow>
             (let (d, s1) = deferred s;
                  (rootNode, s2) = Timeline_createRootNode first d s1;
                  s3 = Timeline_linkRootNode rootNode s2;
                  s4 = Timeline_createAndLinkChildNodes rootNode rest d s3;
                  s5 = (if \<not> isPolling s4 then Timeline_start s4 else s4)
              in (Inr (rootNode, d), s5))))"

text \<open>One pulse of the frame driver: the oldest pending callback runs.\<close>

definition frame :: "timeline \<Rightarrow> timeline option" where
  "frame s =
     (case rafPending s of
        [] \<Rightarrow> Some s
      | i # rest \<Rightarrow> Timeline_loop (s\<lparr>rafPending := rest\<rparr>))"

section \<open>Concrete runs\<close>

text \<open>
  The inputs the closed theorems below are evaluated at. \<open>ex_perf\<close> is a wall clock that
  advances by 100 ms between two reads; \<open>ex_thrower\<close> is an effect that throws the value 7.
\<close>

definition ex_perf :: "nat \<Rightarrow> real" where
  "ex_perf k = 100 * real k"

definition ex_thrower :: Animator where
  "ex_thrower x t = Some 7"

definition ex_idle :: timeline where
  "ex_idle = createTimeline ex_perf"

text \<open>\<^verbatim>\<open>const A = t.animate(100, 100)\<close>: node 0 is the handle, node 1 its second phase.\<close>

definition ex_A :: timeline where
  "ex_A = snd (Timeline_enqueue [InitNumber (Fin 100), InitNumber (Fin 100)] ex_idle)"

text \<open>\<^verbatim>\<open>const B = t.animate(100)\<close> after it: node 2, deferred 1.\<close>

definition ex_AB :: timeline where
  "ex_AB = snd (Timeline_enqueue [InitNumber (Fin 100)] ex_A)"

text \<open>\<^verbatim>\<open>t.animate(10, [10, thrower])\<close>: the second phase throws at its first tick.\<close>

definition ex_E :: timeline where
  "ex_E = snd (Timeline_enqueue [InitNumber (Fin 10), InitTuple (Fin 10) (Some ex_thrower) None] ex_idle)"

definition frames :: "nat \<Rightarrow> timeline \<Rightarrow> timeline option" where
  "frames n s = ((\<lambda>r. Option.bind r frame) ^^ n) (Some s)"

section \<open>The virtual clock\<close>

text \<open>
  C8 (the code departs from the claim). A fresh clock, with wall readings 100, 200, 300,
  400, 500, 600 for \<open>pause\<close>, \<open>resume\<close>, \<open>now\<close>, \<open>pause\<close>, \<open>resume\<close>, \<open>now\<close>. The first
  \<open>now\<close> returns 200 and the second pause freezes the clock at 300; after the second
  resume the clock reads 300 at wall time 600, where 400 is due: \<open>resume\<close> adds
  \<open>performance.now() - pausedTime\<close> to an offset that \<open>pausedTime\<close> already contains, so
  every pause after the first one moves virtual time back by the offset so far.
\<close>

theorem Clock_second_pause_loses_time:
  "(let w = \<lparr>perf = ex_perf, reads = 1\<rparr>;
        (c1, w1) = Clock_pause new_AnimationClock w;
        (c2, w2) = Clock_resume c1 w1;
        (t2, w3) = Clock_now c2 w2;
        (c3, w4) = Clock_pause c2 w3;
        (c4, w5) = Clock_resume c3 w4;
        (t5, w6) = Clock_now c4 w5
    in (t2, pausedTime c3, offset c4, t5)) = (200, 300, 300, 300)"
  by (simp add: Clock_pause_def Clock_resume_def Clock_now_def performance_now_def
      new_AnimationClock_def ex_perf_def)

section \<open>Pausing the scheduler\<close>





section \<open>One tick of a node\<close>

text \<open>
  The tick in the words of the specification: the start time a tick works with
  (\<open>tick_start\<close>: latched from the clock by the first tick), the raw progress
  (\<open>tick_raw\<close>), the callbacks a tick at that progress invokes (\<open>tick_calls\<close>) and the
  value they throw, if any (\<open>tick_thrown\<close>).
\<close>

definition tick_calls :: "ref \<Rightarrow> node \<Rightarrow> number \<Rightarrow> event list" where
  "tick_calls this n raw =
     (case animator n of
        None \<Rightarrow> []
      | Some a \<Rightarrow>
          (case timing n of
             None \<Rightarrow> [AnimatorCall this raw raw]
           | Some f \<Rightarrow>
               TimingCall this raw #
               (case f raw of Inl e \<Rightarrow> [] | Inr y \<Rightarrow> [AnimatorCall this y raw])))"

definition tick_thrown :: "node \<Rightarrow> number \<Rightarrow> thrown option" where
  "tick_thrown n raw =
     (case animator n of
        None \<Rightarrow> None
      | Some a \<Rightarrow>
          (case timing n of
             None \<Rightarrow> a raw raw
           | Some f \<Rightarrow> (case f raw of Inl e \<Rightarrow> Some e | Inr y \<Rightarrow> a y raw)))"

definition tick_start :: "timeline \<Rightarrow> node \<Rightarrow> real option" where
  "tick_start s n = (if started n then startTime n else Some (fst (Clock_now (clock s) (world s))))"

definition tick_raw :: "timeline \<Rightarrow> node \<Rightarrow> real \<Rightarrow> number" where
  "tick_raw s n ts = Node_calculateProgress (n\<lparr>startTime := tick_start s n\<rparr>) ts"

text \<open>
  The progress at some inputs: start \<open>1 / 2 ^ 54\<close>, now 1 and duration 1 give 1, since the
  difference rounds to 1; a duration \<open>-0\<close> with a negative elapsed time gives
  \<open>+Infinity\<close>, clamped to 1; a zero duration with no elapsed time, and a NaN duration,
  give NaN; an infinite duration gives 0.
\<close>

lemma progress_examples:
  "js_min (js_max (js_div (js_sub 1 (1 / 2 ^ 54)) (Fin 1)) 0) 1 = Fin 1 \<and>
   js_min (js_max (js_div (js_sub 0 100) NegZero) 0) 1 = Fin 1 \<and>
   js_min (js_max (js_div (js_sub 100 0) (Fin 0)) 0) 1 = Fin 1 \<and>
   js_min (js_max (js_div (js_sub 0 0) (Fin 0)) 0) 1 = NaN \<and>
   js_min (js_max (js_div (js_sub 50 0) NaN) 0) 1 = NaN \<and>
   js_min (js_max (js_div (js_sub 50 0) PosInf) 0) 1 = Fin 0 \<and>
   js_min (js_max (js_div (js_sub 50 0) (Fin 100)) 0) 1 = Fin (1 / 2) \<and>
   js_min (js_max (js_div (js_sub 10 0) (Fin 30)) 0) 1 = Fin (6004799503160661 / 18014398509481984)"
  by code_simp

lemma tick_done:
  "heap s this = Some n \<Longrightarrow> completed n \<or> error n \<Longrightarrow> Node_tick this ts s = (True, s)"
  by (auto simp: Node_tick_def)
lemma initializeAnimation_eq:
  "heap s this = Some n \<Longrightarrow>
   Node_initializeAnimation this s =
     s\<lparr>heap := (heap s)(this \<mapsto> n\<lparr>started := True, startTime := Some (fst (Clock_now (clock s) (world s)))\<rparr>),
       world := snd (Clock_now (clock s) (world s))\<rparr>"
  by (simp add: Node_initializeAnimation_def Timeline_clock_now_def upd_def split_beta)

lemma applyAnimation_eq:
  "heap s this = Some n \<Longrightarrow>
   Node_applyAnimation this raw s = (tick_thrown n raw, s\<lparr>trace := trace s @ tick_calls this n raw\<rparr>)"
  by (simp add: Node_applyAnimation_def tick_thrown_def tick_calls_def emit_def
      split: option.split sum.split)

lemma processAnimationFrame_eq:
  "heap s this = Some n \<Longrightarrow>
   Node_processAnimationFrame this ts s =
     ((case tick_thrown n (Node_calculateProgress n ts) of
         Some e \<Rightarrow> Inl e
       | None \<Rightarrow> Inr (js_ge (Node_calculateProgress n ts) 1)),
      s\<lparr>trace := trace s @ tick_calls this n (Node_calculateProgress n ts)\<rparr>)"
  by (simp add: Node_processAnimationFrame_def applyAnimation_eq Let_def split: option.split)


lemma tick_thrown_latch [simp]:
  "tick_thrown (n\<lparr>started := a, startTime := b\<rparr>) raw = tick_thrown n raw"
  by (simp add: tick_thrown_def cong: option.case_cong)

lemma tick_calls_latch [simp]:
  "tick_calls this (n\<lparr>started := a, startTime := b\<rparr>) raw = tick_calls this n raw"
  by (simp add: tick_calls_def cong: option.case_cong)

lemma calculateProgress_latch:
  "Node_calculateProgress (n\<lparr>started := a, startTime := b\<rparr>) ts = Node_calculateProgress (n\<lparr>startTime := b\<rparr>) ts"
  by (simp add: Node_calculateProgress_def cong: option.case_cong)

definition tick_latched :: "ref \<Rightarrow> node \<Rightarrow> timeline \<Rightarrow> timeline" where
  "tick_latched this n s =
     (if started n then s
      else s\<lparr>heap := (heap s)(this \<mapsto> n\<lparr>started := True, startTime := tick_start s n\<rparr>),
             world := snd (Clock_now (clock s) (world s))\<rparr>)"

lemma trace_tick_latched [simp]: "trace (tick_latched this n s) = trace s"
  by (simp add: tick_latched_def)

lemma Node_tick_eq:
  assumes "heap s this = Some n" "\<not> completed n" "\<not> error n"
  shows "Node_tick this ts s =
     (let raw = tick_raw s n ts;
          s2 = (tick_latched this n s)\<lparr>trace := trace s @ tick_calls this n raw\<rparr>
      in case tick_thrown n raw of
           None \<Rightarrow> (js_ge raw 1, s2)
         | Some e \<Rightarrow> (True, Node_handleError this e s2))"
proof (cases "started n")
  case True
  then have "tick_raw s n ts = Node_calculateProgress n ts"
    by (simp add: tick_raw_def tick_start_def)
  with True assms show ?thesis
    by (simp add: Node_tick_def processAnimationFrame_eq tick_latched_def Let_def
        split: option.split)
next
  case False
  let ?n1 = "n\<lparr>started := True, startTime := tick_start s n\<rparr>"
  have l: "Node_initializeAnimation this s = tick_latched this n s"
    using assms False by (simp add: initializeAnimation_eq tick_latched_def tick_start_def)
  have h: "heap (tick_latched this n s) this = Some ?n1"
    using False by (simp add: tick_latched_def)
  have r: "Node_calculateProgress ?n1 ts = tick_raw s n ts"
    by (simp add: tick_raw_def calculateProgress_latch)
  have "Node_tick this ts s =
      (case Node_processAnimationFrame this ts (tick_latched this n s) of
         (Inr b, s2) \<Rightarrow> (b, s2)
       | (Inl e, s2) \<Rightarrow> (True, Node_handleError this e s2))"
    using assms False by (simp add: Node_tick_def l)
  also have "\<dots> =
      (let raw = tick_raw s n ts;
           s2 = (tick_latched this n s)\<lparr>trace := trace s @ tick_calls this n raw\<rparr>
       in case tick_thrown n raw of
            None \<Rightarrow> (js_ge raw 1, s2)
          | Some e \<Rightarrow> (True, Node_handleError this e s2))"
    by (simp add: processAnimationFrame_eq [OF h] r Let_def split: option.split)
  finally show ?thesis .
qed








section \<open>The error flag of the chain handle\<close>

text \<open>
  C1 (the code departs from the claim). \<open>ex_E\<close> is a two-phase chain whose second phase
  throws 7. After three frames the chain is rejected with 7 and the second node carries the
  error flag, but the getter \<open>error\<close> of the handle (node 0) still returns false:
  \<^verbatim>\<open>_createAndLinkChildNodes\<close> hands every child the bare \<^verbatim>\<open>reject\<close>, and
  \<^verbatim>\<open>_handleError\<close> sets the flag of the failing node only.
\<close>

theorem handle_error_not_propagated:
  "map_option (\<lambda>s. (Node_error s 0, Node_error s 1, deferreds s 0, t_nextNode s))
     (frames 3 ex_E) = Some (False, True, Some (Rejected 7), None)"
  by code_simp

section \<open>Revoking a chain next to another one\<close>

text \<open>
  C2 (the code departs from the claim). Chain A has two phases, chain B one; both are
  enqueued, then A is revoked through its handle. \<^verbatim>\<open>_remove\<close> runs on A's second node,
  which never was in the active-slot list: it has no \<open>prevNode\<close>, so the branch for the
  first list element stores its (unset) \<open>nextNode\<close> in the timeline's head. B's node 2 is
  no longer reachable: the next frame ticks nothing, finds no head and resets the
  scheduler, and B's deferred stays pending with no frame requested. Without the
  revocation the same frame ticks B.
\<close>

theorem revoke_drops_other_chain:
  "map_option (\<lambda>s. (t_nextNode s, t_tailNode s, deferreds s 0, deferreds s 1))
     (Node_revoke 0 ex_AB) = Some (None, Some 2, Some Resolved, Some Pending)
   \<and> map_option (\<lambda>s. (trace s, deferreds s 1, Node_completed s 2, rafPending s, timer s))
       (Option.bind (Node_revoke 0 ex_AB) frame)
     = Some ([OnCompletedCall 1], Some Pending, False, [], None)
   \<and> map_option trace (frame ex_AB) = Some [TickCall 0 0, TickCall 2 0]"
  by code_simp

section \<open>Resetting the scheduler while chains are active\<close>

lemma reset_fields:
  "heap (Timeline_reset s) = heap s \<and> deferreds (Timeline_reset s) = deferreds s \<and>
   trace (Timeline_reset s) = trace s \<and> t_nextNode (Timeline_reset s) = None \<and>
   t_tailNode (Timeline_reset s) = None \<and> isPolling (Timeline_reset s) = False \<and>
   clock (Timeline_reset s) = new_AnimationClock"
  by (simp add: Timeline_reset_def Timeline_resetState_def Timeline_stopAnimation_def
      cancelAnimationFrame_def Clock_reset_def new_AnimationClock_def split: option.split)

lemma frame_empty:
  assumes "t_nextNode s = None"
  shows "\<exists>s'. frame s = Some s' \<and> heap s' = heap s \<and> deferreds s' = deferreds s \<and>
     trace s' = trace s \<and> t_nextNode s' = None"
  using assms
  by (simp add: frame_def Timeline_loop_def Timeline_poll_def Timeline_cleanup_def reset_fields
      split: list.split)

lemma frames_Suc: "frames (Suc k) s = Option.bind (frames k s) frame"
  by (simp add: frames_def)

lemma frames_empty:
  assumes "t_nextNode s = None"
  shows "\<exists>s'. frames k s = Some s' \<and> heap s' = heap s \<and> deferreds s' = deferreds s \<and>
     trace s' = trace s \<and> t_nextNode s' = None"
proof (induction k)
  case 0
  then show ?case using assms by (simp add: frames_def)
next
  case (Suc k)
  then obtain s1 where s1: "frames k s = Some s1" "heap s1 = heap s" "deferreds s1 = deferreds s"
      "trace s1 = trace s" "t_nextNode s1 = None"
    by blast
  from frame_empty [OF s1(5)] s1 show ?case
    by (auto simp: frames_Suc)
qed

text \<open>
  C10. \<open>reset\<close> called while chains are active empties the active-slot list (head and
  tail are unset) without firing any callback: the trace is unchanged, every deferred is
  as it was (a pending signal is neither resolved nor rejected), every node, with its
  completed and error flags, is unchanged, and any number \<open>k\<close> of later frames returns
  and leaves deferreds, nodes and trace as they are: the signal of a dropped chain does
  not settle.
\<close>

theorem reset_drops_silently:
  "heap (Timeline_reset s) = heap s \<and> deferreds (Timeline_reset s) = deferreds s \<and>
   trace (Timeline_reset s) = trace s \<and>
   t_nextNode (Timeline_reset s) = None \<and> t_tailNode (Timeline_reset s) = None \<and>
   (\<exists>s'. frames k (Timeline_reset s) = Some s' \<and> heap s' = heap s \<and>
      deferreds s' = deferreds s \<and> trace s' = trace s \<and> t_nextNode s' = None)"
  using frames_empty [of "Timeline_reset s" k] by (simp add: reset_fields)

section \<open>The active-slot list\<close>

text \<open>
  The list the scheduler owns, as a list of references: \<open>dll s xs\<close> says that the
  timeline's head and tail are the first and last element of \<open>xs\<close> and that every node of
  \<open>xs\<close> is linked to its two neighbours in \<open>xs\<close> (\<open>next_in\<close>, \<open>prev_in\<close>), the ends
  to nothing.
\<close>

fun hd_opt :: "'a list \<Rightarrow> 'a option" where
  "hd_opt [] = None"
| "hd_opt (x # xs) = Some x"

definition last_opt :: "'a list \<Rightarrow> 'a option" where
  "last_opt xs = hd_opt (rev xs)"

primrec next_in :: "'a list \<Rightarrow> 'a \<Rightarrow> 'a option" where
  "next_in [] y = None"
| "next_in (x # xs) y = (if y = x then hd_opt xs else next_in xs y)"

definition prev_in :: "'a list \<Rightarrow> 'a \<Rightarrow> 'a option" where
  "prev_in xs y = next_in (rev xs) y"

lemma hd_opt_mem: "hd_opt xs = Some x \<Longrightarrow> x \<in> set xs"
  by (cases xs) auto


lemma hd_opt_append: "hd_opt (xs @ ys) = (if xs = [] then hd_opt ys else hd_opt xs)"
  by (cases xs) auto

lemma next_in_mem: "next_in xs y = Some z \<Longrightarrow> y \<in> set xs \<and> z \<in> set xs"
  by (induction xs) (auto split: if_splits dest: hd_opt_mem)

lemma next_in_notin: "y \<notin> set xs \<Longrightarrow> next_in xs y = None"
  by (induction xs) auto

lemma next_in_decomp:
  "distinct xs \<Longrightarrow> (next_in xs y = Some z) = (\<exists>as bs. xs = as @ y # z # bs)"
proof (induction xs)
  case Nil
  then show ?case by simp
next
  case (Cons x xs)
  show ?case
  proof (cases "y = x")
    case True
    have "(hd_opt xs = Some z) = (\<exists>bs. xs = z # bs)"
      by (cases xs) auto
    moreover have "(\<exists>as bs. x # xs = as @ x # z # bs) = (\<exists>bs. xs = z # bs)"
      using Cons.prems by (auto simp: Cons_eq_append_conv)
    ultimately show ?thesis using True by simp
  next
    case False
    have "(\<exists>as bs. x # xs = as @ y # z # bs) = (\<exists>as bs. xs = as @ y # z # bs)"
      using False by (auto simp: Cons_eq_append_conv)
    with False Cons show ?thesis by simp
  qed
qed

lemma next_prev: "distinct xs \<Longrightarrow> (next_in xs y = Some z) = (prev_in xs z = Some y)"
proof -
  assume d: "distinct xs"
  have "(\<exists>as bs. xs = as @ y # z # bs) = (\<exists>as bs. rev xs = as @ z # y # bs)"
  proof
    assume "\<exists>as bs. xs = as @ y # z # bs"
    then obtain as bs where "xs = as @ y # z # bs" by blast
    then have "rev xs = rev bs @ z # y # rev as" by simp
    then show "\<exists>as bs. rev xs = as @ z # y # bs" by blast
  next
    assume "\<exists>as bs. rev xs = as @ z # y # bs"
    then obtain as bs where "rev xs = as @ z # y # bs" by blast
    then have "rev (rev xs) = rev (as @ z # y # bs)" by simp
    then have "xs = rev bs @ y # z # rev as" by simp
    then show "\<exists>as bs. xs = as @ y # z # bs" by blast
  qed
  with d show ?thesis
    by (simp add: prev_in_def next_in_decomp)
qed

lemma next_in_neq: "distinct xs \<Longrightarrow> next_in xs y = Some z \<Longrightarrow> z \<noteq> y"
  by (auto simp: next_in_decomp)

lemma next_in_None:
  "distinct xs \<Longrightarrow> x \<in> set xs \<Longrightarrow> (next_in xs x = None) = (last_opt xs = Some x)"
proof (induction xs)
  case Nil
  then show ?case by simp
next
  case (Cons a xs)
  then show ?case
    by (cases xs) (auto simp: last_opt_def hd_opt_append dest: hd_opt_mem)
qed

lemma prev_in_None:
  "distinct xs \<Longrightarrow> x \<in> set xs \<Longrightarrow> (prev_in xs x = None) = (hd_opt xs = Some x)"
  using next_in_None [of "rev xs" x] by (simp add: prev_in_def last_opt_def)

lemma hd_remove1:
  "distinct xs \<Longrightarrow> hd_opt (remove1 x xs) = (if hd_opt xs = Some x then next_in xs x else hd_opt xs)"
  by (cases xs) auto

lemma next_remove1:
  "distinct xs \<Longrightarrow> y \<noteq> x \<Longrightarrow>
   next_in (remove1 x xs) y = (if next_in xs y = Some x then next_in xs x else next_in xs y)"
proof (induction xs)
  case Nil
  then show ?case by simp
next
  case (Cons a xs)
  then show ?case
    by (cases xs) (auto simp: hd_remove1 next_in_notin dest: next_in_mem hd_opt_mem)
qed

lemma rev_remove1: "distinct xs \<Longrightarrow> rev (remove1 x xs) = remove1 x (rev xs)"
  by (simp add: distinct_remove1_removeAll removeAll_filter_not_eq rev_filter)

lemma last_remove1:
  "distinct xs \<Longrightarrow> last_opt (remove1 x xs) = (if last_opt xs = Some x then prev_in xs x else last_opt xs)"
  using hd_remove1 [of "rev xs" x] by (simp add: last_opt_def prev_in_def rev_remove1)

lemma prev_remove1:
  "distinct xs \<Longrightarrow> y \<noteq> x \<Longrightarrow>
   prev_in (remove1 x xs) y = (if prev_in xs y = Some x then prev_in xs x else prev_in xs y)"
  using next_remove1 [of "rev xs" y x] by (simp add: prev_in_def rev_remove1)





definition dll :: "timeline \<Rightarrow> ref list \<Rightarrow> bool" where
  "dll s xs =
     (distinct xs \<and> t_nextNode s = hd_opt xs \<and> t_tailNode s = last_opt xs \<and>
      (\<forall>x\<in>set xs. case heap s x of
                      None \<Rightarrow> False
                    | Some n \<Rightarrow> nextNode n = next_in xs x \<and> prevNode n = prev_in xs x))"

lemma dll_alt:
  "dll s xs =
     (distinct xs \<and> t_nextNode s = hd_opt xs \<and> t_tailNode s = last_opt xs \<and>
      (\<forall>x\<in>set xs. heap s x \<noteq> None \<and> get_next s x = next_in xs x \<and> get_prev s x = prev_in xs x))"
  by (auto simp: dll_def get_next_def get_prev_def split: option.splits)

lemma upd_eq:
  "upd r f s = s\<lparr>heap := (case heap s r of None \<Rightarrow> heap s | Some n \<Rightarrow> (heap s)(r \<mapsto> f n))\<rparr>"
  by (simp add: upd_def split: option.split)

definition unlinked :: "ref \<Rightarrow> ref option \<Rightarrow> ref option \<Rightarrow> timeline \<Rightarrow> timeline" where
  "unlinked this p q s =
     s\<lparr>heap := (\<lambda>y. case heap s y of
                     None \<Rightarrow> None
                   | Some k \<Rightarrow> Some (k\<lparr>prevNode := (if q = Some y then p else prevNode k),
                                      nextNode := (if p = Some y then q else nextNode k)\<rparr>)),
       t_nextNode := (if p = None \<or> t_nextNode s = Some this then q else t_nextNode s),
       t_tailNode := (if t_tailNode s = Some this then p else t_tailNode s)\<rparr>"

lemma Node_remove_eq:
  assumes "heap s this = Some n" "prevNode n \<noteq> Some this" "nextNode n \<noteq> Some this"
  shows "Node_remove this s = fire_onCompleted this (unlinked this (prevNode n) (nextNode n) s)"
proof -
  let ?p = "prevNode n" and ?q = "nextNode n"
  define s1 where "s1 = (case get_prev s this of
                  Some p \<Rightarrow> upd p (\<lambda>n. n\<lparr>nextNode := get_next s this\<rparr>) s
                | None \<Rightarrow> s\<lparr>t_nextNode := get_next s this\<rparr>)"
  define s2 where "s2 = (case get_next s1 this of
                  Some q \<Rightarrow> upd q (\<lambda>n. n\<lparr>prevNode := get_prev s1 this\<rparr>) s1
                | None \<Rightarrow> s1)"
  define s3 where "s3 = (if t_tailNode s2 = Some this then s2\<lparr>t_tailNode := get_prev s2 this\<rparr> else s2)"
  define s4 where "s4 = (if t_nextNode s3 = Some this then s3\<lparr>t_nextNode := get_next s3 this\<rparr> else s3)"
  have r: "Node_remove this s = fire_onCompleted this s4"
    unfolding Node_remove_def Let_def s4_def s3_def s2_def s1_def ..
  have h1: "heap s1 = (\<lambda>y. case heap s y of None \<Rightarrow> None
       | Some k \<Rightarrow> Some (k\<lparr>nextNode := (if ?p = Some y then ?q else nextNode k)\<rparr>))"
    using assms by (auto simp: s1_def get_prev_def get_next_def upd_eq fun_eq_iff split: option.splits)
  have t1: "t_nextNode s1 = (if ?p = None then ?q else t_nextNode s)" "t_tailNode s1 = t_tailNode s"
    using assms by (auto simp: s1_def get_prev_def get_next_def upd_eq split: option.splits)
  have g1: "get_next s1 this = ?q" "get_prev s1 this = ?p"
    using assms by (auto simp: h1 get_prev_def get_next_def)
  have h2: "heap s2 = (\<lambda>y. case heap s y of None \<Rightarrow> None
       | Some k \<Rightarrow> Some (k\<lparr>prevNode := (if ?q = Some y then ?p else prevNode k),
                           nextNode := (if ?p = Some y then ?q else nextNode k)\<rparr>))"
    by (auto simp: s2_def g1 h1 upd_eq fun_eq_iff split: option.splits)
  have t2: "t_nextNode s2 = t_nextNode s1" "t_tailNode s2 = t_tailNode s1"
    by (auto simp: s2_def upd_eq split: option.splits)
  have g2: "get_next s2 this = ?q" "get_prev s2 this = ?p"
    using assms by (auto simp: h2 get_prev_def get_next_def)
  have e3: "s3 = s2\<lparr>t_tailNode := (if t_tailNode s = Some this then ?p else t_tailNode s)\<rparr>"
    by (simp add: s3_def g2 t2 t1)
  have g3: "get_next s3 this = ?q"
    using g2 by (simp add: e3 get_next_def)
  have e4: "s4 = s3\<lparr>t_nextNode := (if ?p = None \<or> t_nextNode s = Some this then ?q else t_nextNode s)\<rparr>"
  proof -
    have t3: "t_nextNode s3 = (if ?p = None then ?q else t_nextNode s)"
      by (simp add: e3 t2 t1)
    show ?thesis
      using assms by (auto simp: s4_def g3 t3)
  qed
  have "s4 = unlinked this ?p ?q s"
  proof -
    have a: "s1 = s\<lparr>heap := heap s1, t_nextNode := t_nextNode s1\<rparr>"
      by (simp add: s1_def upd_eq split: option.split)
    have b: "s2 = s1\<lparr>heap := heap s2\<rparr>"
      by (simp add: s2_def upd_eq split: option.split)
    show ?thesis
      apply (subst e4, subst e3, subst b, subst a)
      apply (simp add: unlinked_def h2)
      done
  qed
  with r show ?thesis by simp
qed


definition relinked :: "ref \<Rightarrow> ref \<Rightarrow> ref option \<Rightarrow> ref option \<Rightarrow> timeline \<Rightarrow> timeline" where
  "relinked this m p q s =
     s\<lparr>heap := (\<lambda>y. case heap s y of
                     None \<Rightarrow> None
                   | Some k \<Rightarrow>
                       Some (if y = m then k\<lparr>prevNode := p, nextNode := q\<rparr>
                             else k\<lparr>prevNode := (if q = Some y then Some m else prevNode k),
                                    nextNode := (if p = Some y then Some m else nextNode k)\<rparr>)),
       t_nextNode := (if t_nextNode s = Some this then Some m else t_nextNode s),
       t_tailNode := (if t_tailNode s = Some this then Some m else t_tailNode s)\<rparr>"


lemma prev_in_neq: "distinct xs \<Longrightarrow> prev_in xs y = Some z \<Longrightarrow> z \<noteq> y"
  using next_in_neq [of xs z y] by (auto simp: next_prev)

lemma prev_in_mem: "prev_in xs y = Some z \<Longrightarrow> y \<in> set xs \<and> z \<in> set xs"
  using next_in_mem [of "rev xs" y z] by (simp add: prev_in_def)

lemma get_unlinked:
  "heap s y \<noteq> None \<Longrightarrow> get_next (unlinked this p q s) y = (if p = Some y then q else get_next s y)"
  "heap s y \<noteq> None \<Longrightarrow> get_prev (unlinked this p q s) y = (if q = Some y then p else get_prev s y)"
  by (auto simp: unlinked_def get_next_def get_prev_def)

lemma dom_unlinked: "(heap (unlinked this p q s) y = None) = (heap s y = None)"
  by (simp add: unlinked_def split: option.split)



lemma dll_links:
  "dll s xs \<Longrightarrow> x \<in> set xs \<Longrightarrow> heap s x = Some n \<Longrightarrow>
   prevNode n = prev_in xs x \<and> nextNode n = next_in xs x"
  by (auto simp: dll_alt get_next_def get_prev_def)

lemma dll_unlinked:
  assumes "dll s xs" "this \<in> set xs"
  shows "dll (unlinked this (prev_in xs this) (next_in xs this) s) (remove1 this xs)"
proof -
  let ?s' = "unlinked this (prev_in xs this) (next_in xs this) s"
  have d: "distinct xs" using assms by (simp add: dll_alt)
  have hd: "t_nextNode ?s' = hd_opt (remove1 this xs)"
    using assms d by (simp add: unlinked_def dll_alt hd_remove1 prev_in_None)
  have tl: "t_tailNode ?s' = last_opt (remove1 this xs)"
    using assms d by (simp add: unlinked_def dll_alt last_remove1)
  have pt: "heap ?s' y \<noteq> None \<and> get_next ?s' y = next_in (remove1 this xs) y \<and>
        get_prev ?s' y = prev_in (remove1 this xs) y" if "y \<in> set (remove1 this xs)" for y
  proof -
    from that d have y: "y \<in> set xs" "y \<noteq> this" by auto
    with assms have h: "heap s y \<noteq> None" "get_next s y = next_in xs y" "get_prev s y = prev_in xs y"
      by (auto simp: dll_alt)
    have a: "(prev_in xs this = Some y) = (next_in xs y = Some this)"
      using d by (simp add: next_prev)
    have b: "(next_in xs this = Some y) = (prev_in xs y = Some this)"
      using d by (simp add: next_prev)
    show ?thesis
      using h y d by (simp add: get_unlinked dom_unlinked next_remove1 prev_remove1 a b)
  qed
  show ?thesis
    using d hd tl pt by (simp add: dll_alt)
qed



lemma fire_onCompleted_eq:
  "fire_onCompleted this s =
     (case heap s this of
        None \<Rightarrow> s
      | Some n \<Rightarrow>
          (case onCompleted n of
             None \<Rightarrow> s
           | Some d \<Rightarrow>
               s\<lparr>trace := trace s @ [OnCompletedCall this],
                 deferreds := (if deferreds s d = Some Pending
                               then (deferreds s)(d \<mapsto> Resolved) else deferreds s)\<rparr>))"
  by (simp add: fire_onCompleted_def resolve_def emit_def split: option.split)

lemma fire_onCompleted_links [simp]:
  "heap (fire_onCompleted this s) = heap s"
  "t_nextNode (fire_onCompleted this s) = t_nextNode s"
  "t_tailNode (fire_onCompleted this s) = t_tailNode s"
  by (simp_all add: fire_onCompleted_eq split: option.split)

lemma dll_same_links:
  "heap s' = heap s \<Longrightarrow> t_nextNode s' = t_nextNode s \<Longrightarrow> t_tailNode s' = t_tailNode s \<Longrightarrow>
   dll s' xs = dll s xs"
  by (simp add: dll_alt get_next_def get_prev_def)

lemma dll_fire [simp]: "dll (fire_onCompleted r s) xs = dll s xs"
  by (rule dll_same_links) simp_all

lemma dll_upd_nonlink:
  assumes "\<And>k. prevNode (f k) = prevNode k \<and> nextNode (f k) = nextNode k"
  shows "dll (upd r f s) xs = dll s xs"
proof -
  have "get_next (upd r f s) x = get_next s x \<and> get_prev (upd r f s) x = get_prev s x \<and>
        (heap (upd r f s) x = None) = (heap s x = None)" for x
    using assms by (simp add: upd_eq get_next_def get_prev_def split: option.split)
  then show ?thesis
    by (simp add: dll_alt upd_eq)
qed

definition mark_completed :: "ref \<Rightarrow> timeline \<Rightarrow> timeline" where
  "mark_completed this s = upd this (\<lambda>n. n\<lparr>completed := True\<rparr>) s"

lemma dll_mark_completed [simp]: "dll (mark_completed this s) xs = dll s xs"
  by (simp add: mark_completed_def dll_upd_nonlink)

lemma heap_mark_completed:
  "heap s this = Some n \<Longrightarrow> heap (mark_completed this s) = (heap s)(this \<mapsto> n\<lparr>completed := True\<rparr>)"
  by (simp add: mark_completed_def upd_eq)






lemma other_unlinked [simp]:
  "trace (unlinked this p q s) = trace s" "deferreds (unlinked this p q s) = deferreds s"
  by (simp_all add: unlinked_def)

lemma other_relinked [simp]:
  "trace (relinked this m p q s) = trace s" "deferreds (relinked this m p q s) = deferreds s"
  by (simp_all add: relinked_def)

lemma other_mark_completed [simp]:
  "trace (mark_completed this s) = trace s" "deferreds (mark_completed this s) = deferreds s"
  by (simp_all add: mark_completed_def upd_eq)








section \<open>The sweep\<close>

text \<open>
  What a tick leaves alone, the traversal of \<^verbatim>\<open>_processNodes\<close> as a recursion over the
  list it starts from (\<open>tick_all\<close>), and what \<^verbatim>\<open>_completeNodes\<close> leaves alone.
\<close>

definition tick_world :: "timeline \<Rightarrow> node \<Rightarrow> wall" where
  "tick_world s n = (if started n then world s else snd (Clock_now (clock s) (world s)))"

definition rejected_by :: "node \<Rightarrow> thrown option \<Rightarrow> (deferred_id \<Rightarrow> settled option) \<Rightarrow> (deferred_id \<Rightarrow> settled option)" where
  "rejected_by n thr ds =
     (case thr of
        None \<Rightarrow> ds
      | Some e \<Rightarrow>
          (case onError n of
             None \<Rightarrow> ds
           | Some d \<Rightarrow> if ds d = Some Pending then ds(d \<mapsto> Rejected e) else ds))"

lemma Node_handleError_eq:
  "heap s this = Some n \<Longrightarrow>
   Node_handleError this e s =
     s\<lparr>heap := (heap s)(this \<mapsto> n\<lparr>error := True\<rparr>),
       deferreds := rejected_by n (Some e) (deferreds s)\<rparr>"
  by (simp add: Node_handleError_def upd_eq reject_def rejected_by_def Let_def split: option.split)

lemma Node_tick_live_state:
  assumes "heap s this = Some n" "\<not> completed n" "\<not> error n"
  shows "snd (Node_tick this ts s) =
     s\<lparr>heap := (heap s)(this \<mapsto> n\<lparr>started := True, startTime := tick_start s n,
                                     error := (tick_thrown n (tick_raw s n ts) \<noteq> None)\<rparr>),
       world := tick_world s n,
       trace := trace s @ tick_calls this n (tick_raw s n ts),
       deferreds := rejected_by n (tick_thrown n (tick_raw s n ts)) (deferreds s)\<rparr>"
proof -
  let ?raw = "tick_raw s n ts"
  let ?n1 = "n\<lparr>started := True, startTime := tick_start s n\<rparr>"
  let ?s2 = "(tick_latched this n s)\<lparr>trace := trace s @ tick_calls this n ?raw\<rparr>"
  have eq: "Node_tick this ts s =
      (case tick_thrown n ?raw of
         None \<Rightarrow> (js_ge ?raw 1, ?s2)
       | Some e \<Rightarrow> (True, Node_handleError this e ?s2))"
    using Node_tick_eq [OF assms, of ts] by (simp add: Let_def)
  have n1: "started n \<Longrightarrow> ?n1 = n"
    by (simp add: tick_start_def)
  have h2: "heap ?s2 this = Some ?n1"
    using assms n1 by (simp add: tick_latched_def)
  have l: "tick_latched this n s = s\<lparr>heap := (heap s)(this \<mapsto> ?n1), world := tick_world s n\<rparr>"
    using assms n1 by (simp add: tick_latched_def tick_world_def fun_upd_idem)
  have ne: "n\<lparr>started := True, startTime := tick_start s n, error := False\<rparr> = ?n1"
    using assms(3) by (cases n) simp
  show ?thesis
  proof (cases "tick_thrown n ?raw")
    case None
    then show ?thesis
      using assms by (simp add: eq l rejected_by_def ne)
  next
    case (Some e)
    have "snd (Node_tick this ts s) = Node_handleError this e ?s2"
      using Some by (simp add: eq)
    also have "\<dots> = ?s2\<lparr>heap := (heap ?s2)(this \<mapsto> ?n1\<lparr>error := True\<rparr>),
          deferreds := rejected_by ?n1 (Some e) (deferreds ?s2)\<rparr>"
      by (rule Node_handleError_eq [OF h2])
    also have "\<dots> = s\<lparr>heap := (heap s)(this \<mapsto> ?n1\<lparr>error := True\<rparr>),
          world := tick_world s n,
          trace := trace s @ tick_calls this n ?raw,
          deferreds := rejected_by n (Some e) (deferreds s)\<rparr>"
      by (simp add: l rejected_by_def)
    finally show ?thesis
      using Some by simp
  qed
qed



fun is_completion :: "event \<Rightarrow> bool" where
  "is_completion (CompleteCall r) = True"
| "is_completion (OnCompletedCall r) = True"
| "is_completion e = False"


definition first_tick :: "timeline \<Rightarrow> ref \<Rightarrow> bool" where
  "first_tick s x =
     (case heap s x of
        None \<Rightarrow> False
      | Some n \<Rightarrow> \<not> completed n \<and> \<not> error n \<and> \<not> started n \<and> \<not> isPaused (clock s))"


lemma Node_tick_none: "heap s x = None \<Longrightarrow> Node_tick x ts s = (True, s)"
  by (simp add: Node_tick_def)

lemma Node_tick_cases3:
  obtains (unchanged) "snd (Node_tick x ts s) = s" "\<not> first_tick s x"
  | (live) n where "heap s x = Some n" "\<not> completed n" "\<not> error n"
proof (cases "heap s x")
  case None
  then show ?thesis
    using unchanged by (simp add: Node_tick_none first_tick_def)
next
  case (Some n)
  show ?thesis
  proof (cases "completed n \<or> error n")
    case True
    with Some show ?thesis
      using unchanged tick_done [OF Some True] by (auto simp: first_tick_def)
  next
    case False
    with Some show ?thesis
      using live by auto
  qed
qed



lemma Node_tick_links:
  "get_next (snd (Node_tick x ts s)) y = get_next s y"
  "get_prev (snd (Node_tick x ts s)) y = get_prev s y"
  "get_sub (snd (Node_tick x ts s)) y = get_sub s y"
  "Node_completed (snd (Node_tick x ts s)) y = Node_completed s y"
  "(heap (snd (Node_tick x ts s)) y = None) = (heap s y = None)"
  by (rule Node_tick_cases3 [where x = x and ts = ts and s = s],
      simp_all add: Node_tick_live_state get_next_def get_prev_def get_sub_def Node_completed_def)+











lemma heap_emit [simp]: "heap (emit e s) = heap s"
  by (simp add: emit_def)

lemma get_emit [simp]:
  "get_next (emit e s) y = get_next s y" "get_prev (emit e s) y = get_prev s y"
  by (simp_all add: get_next_def get_prev_def)




lemma trace_emit [simp]: "trace (emit e s) = trace s @ [e]"
  by (simp add: emit_def)




lemma emit_fields [simp]:
  "t_nextNode (emit e s) = t_nextNode s" "t_tailNode (emit e s) = t_tailNode s"
  "timer (emit e s) = timer s" "clock (emit e s) = clock s" "isPolling (emit e s) = isPolling s"
  "rafPending (emit e s) = rafPending s" "rafNext (emit e s) = rafNext s"
  "world (emit e s) = world s" "deferreds (emit e s) = deferreds s"
  "nextRef (emit e s) = nextRef s" "nextDeferred (emit e s) = nextDeferred s"
  by (simp_all add: emit_def)

lemma first_tick_emit [simp]: "first_tick (emit e s) y = first_tick s y"
  by (simp add: first_tick_def cong: option.case_cong)





text \<open>What a function leaves alone: the clock, the wall time and the frame driver.\<close>

definition same_driver :: "timeline \<Rightarrow> timeline \<Rightarrow> bool" where
  "same_driver s s' =
     (world s' = world s \<and> clock s' = clock s \<and> timer s' = timer s \<and>
      rafPending s' = rafPending s \<and> rafNext s' = rafNext s \<and> isPolling s' = isPolling s)"

lemma same_driver_refl [simp]: "same_driver s s"
  by (simp add: same_driver_def)

lemma same_driver_trans: "same_driver s s1 \<Longrightarrow> same_driver s1 s2 \<Longrightarrow> same_driver s s2"
  by (simp add: same_driver_def)

lemma same_driver_upd [simp]: "same_driver s (upd r f s)"
  by (simp add: same_driver_def upd_eq)

lemma same_driver_fire [simp]: "same_driver s (fire_onCompleted r s)"
  by (simp add: same_driver_def fire_onCompleted_eq split: option.split)

lemma trace_upd [simp]: "trace (upd r f s) = trace s"
  by (simp add: upd_eq)

definition unlink_node :: "node \<Rightarrow> node" where
  "unlink_node n = n\<lparr>prevNode := None, nextNode := None\<rparr>"

text \<open>\<open>links_only s s'\<close>: \<open>s'\<close> differs from \<open>s\<close> in list links at most.\<close>

definition links_only :: "timeline \<Rightarrow> timeline \<Rightarrow> bool" where
  "links_only s s' =
     (same_driver s s' \<and> trace s' = trace s \<and> deferreds s' = deferreds s \<and>
      nextRef s' = nextRef s \<and> nextDeferred s' = nextDeferred s \<and>
      (\<forall>y. map_option unlink_node (heap s' y) = map_option unlink_node (heap s y)))"

lemma links_only_refl [simp]: "links_only s s"
  by (simp add: links_only_def)

lemma links_only_trans: "links_only s s1 \<Longrightarrow> links_only s1 s2 \<Longrightarrow> links_only s s2"
  by (simp add: links_only_def same_driver_def)

lemma links_only_upd_next [simp]: "links_only s (upd r (\<lambda>n. n\<lparr>nextNode := v\<rparr>) s)"
  by (simp add: links_only_def upd_eq unlink_node_def same_driver_def split: option.split)

lemma links_only_upd_prev [simp]: "links_only s (upd r (\<lambda>n. n\<lparr>prevNode := v\<rparr>) s)"
  by (simp add: links_only_def upd_eq unlink_node_def same_driver_def split: option.split)

lemma links_only_head [simp]: "links_only s (s\<lparr>t_nextNode := v\<rparr>)"
  by (simp add: links_only_def same_driver_def)

lemma links_only_tail [simp]: "links_only s (s\<lparr>t_tailNode := v\<rparr>)"
  by (simp add: links_only_def same_driver_def)

lemma Node_remove_split: "\<exists>s4. links_only s s4 \<and> Node_remove r s = fire_onCompleted r s4"
proof -
  define s1 where "s1 = (case get_prev s r of
                  Some p \<Rightarrow> upd p (\<lambda>n. n\<lparr>nextNode := get_next s r\<rparr>) s
                | None \<Rightarrow> s\<lparr>t_nextNode := get_next s r\<rparr>)"
  define s2 where "s2 = (case get_next s1 r of
                  Some q \<Rightarrow> upd q (\<lambda>n. n\<lparr>prevNode := get_prev s1 r\<rparr>) s1
                | None \<Rightarrow> s1)"
  define s3 where "s3 = (if t_tailNode s2 = Some r then s2\<lparr>t_tailNode := get_prev s2 r\<rparr> else s2)"
  define s4 where "s4 = (if t_nextNode s3 = Some r then s3\<lparr>t_nextNode := get_next s3 r\<rparr> else s3)"
  have e: "Node_remove r s = fire_onCompleted r s4"
    unfolding Node_remove_def Let_def s4_def s3_def s2_def s1_def ..
  have "links_only s s1" by (simp add: s1_def split: option.split)
  moreover have "links_only s1 s2" by (simp add: s2_def split: option.split)
  moreover have "links_only s2 s3" by (simp add: s3_def)
  moreover have "links_only s3 s4" by (simp add: s4_def)
  ultimately have "links_only s s4"
    by (blast intro: links_only_trans)
  with e show ?thesis by blast
qed

lemma Node_replace_split: "\<exists>s4. links_only s s4 \<and> Node_replace r m s = fire_onCompleted r s4"
proof -
  define s1 where "s1 = upd m (\<lambda>n. n\<lparr>prevNode := get_prev s r\<rparr>) s"
  define s2 where "s2 = upd m (\<lambda>n. n\<lparr>nextNode := get_next s1 r\<rparr>) s1"
  define s3a where "s3a = (if t_tailNode s2 = Some r then s2\<lparr>t_tailNode := Some m\<rparr> else s2)"
  define s3 where "s3 = (if t_nextNode s3a = Some r then s3a\<lparr>t_nextNode := Some m\<rparr> else s3a)"
  define s4a where "s4a = (case get_prev s3 r of
                  Some p \<Rightarrow> upd p (\<lambda>n. n\<lparr>nextNode := Some m\<rparr>) s3
                | None \<Rightarrow> s3)"
  define s4 where "s4 = (case get_next s4a r of
           Some q \<Rightarrow> upd q (\<lambda>n. n\<lparr>prevNode := Some m\<rparr>) s4a
         | None \<Rightarrow> s4a)"
  have e: "Node_replace r m s = fire_onCompleted r s4"
    unfolding Node_replace_def Node_updateTimelineReferences_def Node_updateNodeLinks_def Let_def
      s4_def s4a_def s3_def s3a_def s2_def s1_def ..
  have "links_only s s1" by (simp add: s1_def)
  moreover have "links_only s1 s2" by (simp add: s2_def)
  moreover have "links_only s2 s3a" by (simp add: s3a_def)
  moreover have "links_only s3a s3" by (simp add: s3_def)
  moreover have "links_only s3 s4a" by (simp add: s4a_def split: option.split)
  moreover have "links_only s4a s4" by (simp add: s4_def split: option.split)
  ultimately have "links_only s s4"
    by (blast intro: links_only_trans)
  with e show ?thesis by blast
qed





lemma fire_trace:
  "\<exists>es. trace (fire_onCompleted r s) = trace s @ es \<and> (\<forall>e\<in>set es. is_completion e)"
  by (simp add: fire_onCompleted_eq split: option.split)

lemma Node_complete_cases:
  obtains (skip) "Node_complete r s = s"
  | (changed) s4 where "links_only (upd r (\<lambda>n. n\<lparr>completed := True\<rparr>) s) s4"
      "Node_complete r s = fire_onCompleted r s4"
proof (cases "heap s r")
  case None
  then show ?thesis using skip by (simp add: Node_complete_def)
next
  case (Some n)
  let ?s1 = "upd r (\<lambda>n. n\<lparr>completed := True\<rparr>) s"
  show ?thesis
  proof (cases "completed n")
    case True
    with Some show ?thesis using skip by (simp add: Node_complete_def)
  next
    case False
    have "\<exists>s4. links_only ?s1 s4 \<and> Node_complete r s = fire_onCompleted r s4"
    proof (cases "subNode n")
      case None
      with Some False have "Node_complete r s = Node_remove r ?s1"
        by (simp add: Node_complete_def)
      then show ?thesis using Node_remove_split [of ?s1 r] by simp
    next
      case (Some m)
      show ?thesis
      proof (cases "error n")
        case True
        with Some \<open>heap s r = Some n\<close> False have "Node_complete r s = Node_remove r ?s1"
          by (simp add: Node_complete_def)
        then show ?thesis using Node_remove_split [of ?s1 r] by simp
      next
        case e: False
        with Some \<open>heap s r = Some n\<close> False have "Node_complete r s = Node_replace r m ?s1"
          by (simp add: Node_complete_def)
        then show ?thesis using Node_replace_split [of ?s1 r m] by simp
      qed
    qed
    then show ?thesis using changed by blast
  qed
qed

lemma Node_complete_frame:
  "same_driver s (Node_complete r s) \<and>
   (\<exists>es. trace (Node_complete r s) = trace s @ es \<and> (\<forall>e\<in>set es. is_completion e))"
proof (rule Node_complete_cases [where r = r and s = s])
  assume "Node_complete r s = s"
  then show ?thesis by simp
next
  fix s4
  assume l: "links_only (upd r (\<lambda>n. n\<lparr>completed := True\<rparr>) s) s4"
    and e: "Node_complete r s = fire_onCompleted r s4"
  from l have "same_driver s s4" "trace s4 = trace s"
    by (auto simp: links_only_def same_driver_def upd_eq)
  then show ?thesis
    using fire_trace [of r s4] same_driver_fire [of s4 r]
    by (auto simp: e intro: same_driver_trans)
qed













lemma completed_emit [simp]: "Node_completed (emit e s) m = Node_completed s m"
  by (simp add: Node_completed_def)





definition sweep_now :: "timeline \<Rightarrow> real" where
  "sweep_now s = fst (Clock_now (clock s) (world s))"











section \<open>Revoking a chain\<close>

text \<open>
  \<^verbatim>\<open>revoke()\<close> as a recursion over the static chain (\<open>revoke_all\<close> over the nodes \<open>cs\<close>
  that \<open>chain\<close> collects), what one step of it does to a node of the active-slot list
  and to a node that never was linked, and the deferreds and callbacks it touches.
\<close>

definition get_onCompleted :: "timeline \<Rightarrow> ref \<Rightarrow> deferred_id option" where
  "get_onCompleted s r = (case heap s r of None \<Rightarrow> None | Some n \<Rightarrow> onCompleted n)"

lemma unlink_node_fields [simp]:
  "completed (unlink_node n) = completed n" "error (unlink_node n) = error n"
  "subNode (unlink_node n) = subNode n" "onCompleted (unlink_node n) = onCompleted n"
  "onError (unlink_node n) = onError n" "started (unlink_node n) = started n"
  "animator (unlink_node n) = animator n" "timing (unlink_node n) = timing n"
  by (simp_all add: unlink_node_def)

lemma links_only_node:
  assumes "links_only s s'"
  shows "(heap s' y = None) = (heap s y = None)"
    and "get_sub s' y = get_sub s y"
    and "Node_completed s' y = Node_completed s y"
    and "Node_error s' y = Node_error s y"
    and "get_onCompleted s' y = get_onCompleted s y"
proof -
  from assms have e: "map_option unlink_node (heap s' y) = map_option unlink_node (heap s y)"
    by (simp add: links_only_def)
  show "(heap s' y = None) = (heap s y = None)"
    using e by (cases "heap s y"; cases "heap s' y") auto
  have f: "map_option (f \<circ> unlink_node) (heap s' y) = map_option (f \<circ> unlink_node) (heap s y)" for f :: "node \<Rightarrow> 'a"
    using e by (cases "heap s y"; cases "heap s' y") auto
  show "get_sub s' y = get_sub s y"
    using f [of subNode] by (cases "heap s y"; cases "heap s' y") (auto simp: get_sub_def)
  show "Node_completed s' y = Node_completed s y"
    using f [of completed] by (cases "heap s y"; cases "heap s' y") (auto simp: Node_completed_def)
  show "Node_error s' y = Node_error s y"
    using f [of error] by (cases "heap s y"; cases "heap s' y") (auto simp: Node_error_def)
  show "get_onCompleted s' y = get_onCompleted s y"
    using f [of onCompleted] by (cases "heap s y"; cases "heap s' y") (auto simp: get_onCompleted_def)
qed

definition revoke_one :: "ref \<Rightarrow> timeline \<Rightarrow> timeline" where
  "revoke_one c s =
     (case heap s c of
        None \<Rightarrow> s
      | Some n \<Rightarrow> if \<not> completed n then Node_remove c (mark_completed c s) else s)"

fun revoke_all :: "ref list \<Rightarrow> timeline \<Rightarrow> timeline" where
  "revoke_all [] s = s"
| "revoke_all (c # cs) s = revoke_all cs (revoke_one c s)"

fun chain :: "(ref \<Rightarrow> node option) \<Rightarrow> ref option \<Rightarrow> ref list \<Rightarrow> bool" where
  "chain h p [] = (p = None)"
| "chain h p (c # cs) =
     (p = Some c \<and> (case h c of None \<Rightarrow> False | Some n \<Rightarrow> chain h (subNode n) cs))"

lemma revoke_one_cases:
  obtains (skip) "revoke_one c s = s" "heap s c = None \<or> Node_completed s c"
  | (removed) n s4 where "heap s c = Some n" "\<not> completed n" "links_only (mark_completed c s) s4"
      "revoke_one c s = fire_onCompleted c s4"
proof (cases "heap s c")
  case None
  then show ?thesis using skip by (simp add: revoke_one_def)
next
  case (Some n)
  show ?thesis
  proof (cases "completed n")
    case True
    with Some show ?thesis using skip by (simp add: revoke_one_def Node_completed_def)
  next
    case False
    with Some have "revoke_one c s = Node_remove c (mark_completed c s)"
      by (simp add: revoke_one_def)
    with Some False show ?thesis
      using removed Node_remove_split [of "mark_completed c s" c] by auto
  qed
qed

lemma mark_completed_node:
  "(heap (mark_completed c s) y = None) = (heap s y = None)"
  "get_sub (mark_completed c s) y = get_sub s y"
  "Node_completed (mark_completed c s) y = (Node_completed s y \<or> (y = c \<and> heap s c \<noteq> None))"
  "Node_error (mark_completed c s) y = Node_error s y"
  "get_onCompleted (mark_completed c s) y = get_onCompleted s y"
  by (auto simp: mark_completed_def upd_eq get_sub_def Node_completed_def Node_error_def
      get_onCompleted_def split: option.splits)

lemma fire_node [simp]:
  "get_sub (fire_onCompleted c s) y = get_sub s y"
  "Node_completed (fire_onCompleted c s) y = Node_completed s y"
  "Node_error (fire_onCompleted c s) y = Node_error s y"
  "get_onCompleted (fire_onCompleted c s) y = get_onCompleted s y"
  by (simp_all add: get_sub_def Node_completed_def Node_error_def get_onCompleted_def)

lemma revoke_one_node:
  "(heap (revoke_one c s) y = None) = (heap s y = None)"
  "get_sub (revoke_one c s) y = get_sub s y"
  "Node_completed (revoke_one c s) y = (Node_completed s y \<or> (y = c \<and> heap s c \<noteq> None))"
  "Node_error (revoke_one c s) y = Node_error s y"
  "get_onCompleted (revoke_one c s) y = get_onCompleted s y"
proof -
  have "(heap (revoke_one c s) y = None) = (heap s y = None) \<and>
    get_sub (revoke_one c s) y = get_sub s y \<and>
    Node_completed (revoke_one c s) y = (Node_completed s y \<or> (y = c \<and> heap s c \<noteq> None)) \<and>
    Node_error (revoke_one c s) y = Node_error s y \<and>
    get_onCompleted (revoke_one c s) y = get_onCompleted s y"
  proof (rule revoke_one_cases [where c = c and s = s])
    assume e: "revoke_one c s = s" and "heap s c = None \<or> Node_completed s c"
    then show ?thesis
      by auto
  next
    fix n s4
    assume l: "links_only (mark_completed c s) s4" and e: "revoke_one c s = fire_onCompleted c s4"
    note k = links_only_node [OF l, of y]
    show ?thesis
      by (simp add: e k mark_completed_node)
  qed
  then show "(heap (revoke_one c s) y = None) = (heap s y = None)"
    "get_sub (revoke_one c s) y = get_sub s y"
    "Node_completed (revoke_one c s) y = (Node_completed s y \<or> (y = c \<and> heap s c \<noteq> None))"
    "Node_error (revoke_one c s) y = Node_error s y"
    "get_onCompleted (revoke_one c s) y = get_onCompleted s y"
    by blast+
qed

lemma chain_same_sub:
  assumes "\<And>y. get_sub s' y = get_sub s y \<and> (heap s' y = None) = (heap s y = None)"
  shows "chain (heap s') p cs = chain (heap s) p cs"
proof (induction cs arbitrary: p)
  case Nil
  then show ?case by simp
next
  case (Cons c cs)
  have "heap s' c = None \<longleftrightarrow> heap s c = None" "get_sub s' c = get_sub s c"
    using assms by auto
  then show ?case
    using Cons.IH by (auto simp: get_sub_def split: option.splits)
qed

lemma revokeSubNodes_loop_eq:
  "chain (heap s) cur cs \<Longrightarrow> revokeSubNodes_loop cur s = Some (revoke_all cs s)"
proof (induction cs arbitrary: cur s)
  case Nil
  then show ?case
    by (simp add: revokeSubNodes_loop.simps)
next
  case (Cons c cs)
  then obtain n where n: "cur = Some c" "heap s c = Some n" "chain (heap s) (subNode n) cs"
    by (auto split: option.splits)
  have "get_sub (revoke_one c s) c = get_sub s c"
    by (simp add: revoke_one_node)
  then have g: "get_sub (revoke_one c s) c = subNode n"
    using n by (simp add: get_sub_def)
  have "chain (heap (revoke_one c s)) (subNode n) cs = chain (heap s) (subNode n) cs"
    by (rule chain_same_sub) (simp add: revoke_one_node)
  with n g have p: "chain (heap (revoke_one c s)) (get_sub (revoke_one c s) c) cs"
    by simp
  have "revokeSubNodes_loop cur s =
      revokeSubNodes_loop (get_sub (revoke_one c s) c) (revoke_one c s)"
    using n(1,2)
    by (subst revokeSubNodes_loop.simps) (simp add: revoke_one_def mark_completed_def Let_def)
  with Cons.IH [OF p] show ?case
    by simp
qed

lemma Node_revoke_eq:
  assumes "chain (heap s) (Some r) cs"
  shows "Node_revoke r s = Some (revoke_all cs s)"
proof -
  from assms obtain n rest where n: "cs = r # rest" "heap s r = Some n" "chain (heap s) (subNode n) rest"
    by (cases cs) (auto split: option.splits)
  have "get_sub (revoke_one r s) r = get_sub s r"
    by (simp add: revoke_one_node)
  then have g: "get_sub (revoke_one r s) r = subNode n"
    using n by (simp add: get_sub_def)
  have "chain (heap (revoke_one r s)) (subNode n) rest = chain (heap s) (subNode n) rest"
    by (rule chain_same_sub) (simp add: revoke_one_node)
  with n have p: "chain (heap (revoke_one r s)) (subNode n) rest"
    by simp
  have "Node_revoke r s = Node_revokeSubNodes r (revoke_one r s)"
    using n by (simp add: Node_revoke_def revoke_one_def mark_completed_def Let_def)
  also have "\<dots> = Some (revoke_all rest (revoke_one r s))"
  proof (cases "subNode n")
    case None
    with p have "rest = []" by (cases rest) auto
    with None g show ?thesis
      by (simp add: Node_revokeSubNodes_def)
  next
    case (Some m)
    with g p show ?thesis
      by (simp add: Node_revokeSubNodes_def revokeSubNodes_loop_eq)
  qed
  finally show ?thesis
    by (simp add: n)
qed


definition fired_at :: "timeline \<Rightarrow> ref \<Rightarrow> event list" where
  "fired_at s c = (case get_onCompleted s c of None \<Rightarrow> [] | Some d \<Rightarrow> [OnCompletedCall c])"

definition resolved_at :: "timeline \<Rightarrow> ref \<Rightarrow> (deferred_id \<Rightarrow> settled option)" where
  "resolved_at s c =
     (case get_onCompleted s c of
        None \<Rightarrow> deferreds s
      | Some d \<Rightarrow> if deferreds s d = Some Pending then (deferreds s)(d \<mapsto> Resolved) else deferreds s)"

lemma fire_effect:
  "trace (fire_onCompleted c s) = trace s @ fired_at s c \<and>
   deferreds (fire_onCompleted c s) = resolved_at s c"
  by (simp add: fire_onCompleted_eq fired_at_def resolved_at_def get_onCompleted_def
      split: option.split)

lemma links_only_effect:
  assumes "links_only s s'"
  shows "fired_at s' c = fired_at s c" "resolved_at s' c = resolved_at s c"
  using assms links_only_node(5) [OF assms, of c]
  by (simp_all add: fired_at_def resolved_at_def links_only_def cong: option.case_cong if_cong)

lemma mark_completed_effect [simp]:
  "fired_at (mark_completed c s) y = fired_at s y" "resolved_at (mark_completed c s) y = resolved_at s y"
  by (simp_all add: fired_at_def resolved_at_def mark_completed_node cong: option.case_cong if_cong)

lemma revoke_one_effect:
  "trace (revoke_one c s) = trace s @ (if Node_completed s c \<or> heap s c = None then [] else fired_at s c) \<and>
   deferreds (revoke_one c s) =
     (if Node_completed s c \<or> heap s c = None then deferreds s else resolved_at s c)"
proof (rule revoke_one_cases [where c = c and s = s])
  assume "revoke_one c s = s" "heap s c = None \<or> Node_completed s c"
  then show ?thesis by auto
next
  fix n s4
  assume n: "heap s c = Some n" "\<not> completed n"
    and l: "links_only (mark_completed c s) s4" and e: "revoke_one c s = fire_onCompleted c s4"
  have a: "\<not> (Node_completed s c \<or> heap s c = None)"
    using n by (simp add: Node_completed_def)
  have b: "trace s4 = trace s"
    using l by (simp add: links_only_def)
  have a2: "\<not> Node_completed s c" "heap s c \<noteq> None"
    using a by auto
  show ?thesis
    unfolding e by (simp add: a2 b fire_effect links_only_effect [OF l])
qed

text \<open>Revoking a node of the active-slot list, and revoking a node that never was linked.\<close>

lemma revoke_one_linked:
  assumes "dll s xs" "c \<in> set xs" "\<not> Node_completed s c"
  shows "revoke_one c s =
      fire_onCompleted c (unlinked c (prev_in xs c) (next_in xs c) (mark_completed c s))"
    and "dll (revoke_one c s) (remove1 c xs)"
proof -
  from assms obtain n where n: "heap s c = Some n" "\<not> completed n"
    by (auto simp: dll_alt Node_completed_def)
  let ?n1 = "n\<lparr>completed := True\<rparr>"
  have d: "distinct xs" using assms by (simp add: dll_alt)
  have l: "prevNode n = prev_in xs c" "nextNode n = next_in xs c"
    using dll_links [OF assms(1,2) n(1)] by auto
  have h1: "heap (mark_completed c s) c = Some ?n1"
    using n by (simp add: heap_mark_completed)
  have ns: "prevNode ?n1 \<noteq> Some c" "nextNode ?n1 \<noteq> Some c"
    using d l next_in_neq [of xs c c] prev_in_neq [of xs c c] by auto
  have "revoke_one c s = Node_remove c (mark_completed c s)"
    using n by (simp add: revoke_one_def)
  also have "\<dots> = fire_onCompleted c
       (unlinked c (prevNode ?n1) (nextNode ?n1) (mark_completed c s))"
    by (rule Node_remove_eq [OF h1 ns])
  finally show e: "revoke_one c s =
      fire_onCompleted c (unlinked c (prev_in xs c) (next_in xs c) (mark_completed c s))"
    by (simp add: l)
  have "dll (unlinked c (prev_in xs c) (next_in xs c) (mark_completed c s)) (remove1 c xs)"
    using assms by (intro dll_unlinked) simp_all
  then show "dll (revoke_one c s) (remove1 c xs)"
    by (simp add: e)
qed

lemma unlinked_nothing:
  "unlinked c None None s = s\<lparr>t_nextNode := None,
      t_tailNode := (if t_tailNode s = Some c then None else t_tailNode s)\<rparr>"
proof -
  have h: "(\<lambda>y. case heap s y of None \<Rightarrow> None
          | Some k \<Rightarrow> Some (k\<lparr>prevNode := (if None = Some y then None else prevNode k),
                             nextNode := (if None = Some y then None else nextNode k)\<rparr>)) = heap s"
    by (auto simp: fun_eq_iff split: option.splits)
  show ?thesis
    unfolding unlinked_def h by simp
qed

lemma revoke_one_unlinked:
  assumes "heap s c \<noteq> None" "\<not> Node_completed s c" "get_prev s c = None" "get_next s c = None"
  shows "t_nextNode (revoke_one c s) = None"
    and "get_prev (revoke_one c s) y = get_prev s y"
    and "get_next (revoke_one c s) y = get_next s y"
proof -
  from assms obtain n where n: "heap s c = Some n" "\<not> completed n" "prevNode n = None" "nextNode n = None"
    by (auto simp: Node_completed_def get_prev_def get_next_def)
  let ?n1 = "n\<lparr>completed := True\<rparr>"
  have h1: "heap (mark_completed c s) c = Some ?n1"
    using n by (simp add: heap_mark_completed)
  have ns: "prevNode ?n1 \<noteq> Some c" "nextNode ?n1 \<noteq> Some c"
    using n by auto
  have "revoke_one c s = Node_remove c (mark_completed c s)"
    using n by (simp add: revoke_one_def)
  also have "\<dots> = fire_onCompleted c
       (unlinked c (prevNode ?n1) (nextNode ?n1) (mark_completed c s))"
    by (rule Node_remove_eq [OF h1 ns])
  finally have e: "revoke_one c s = fire_onCompleted c (unlinked c None None (mark_completed c s))"
    using n by simp
  show "t_nextNode (revoke_one c s) = None"
    by (simp add: e unlinked_nothing)
  show "get_prev (revoke_one c s) y = get_prev s y"
    by (simp add: e unlinked_nothing get_prev_def mark_completed_def upd_eq split: option.split)
  show "get_next (revoke_one c s) y = get_next s y"
    by (simp add: e unlinked_nothing get_next_def mark_completed_def upd_eq split: option.split)
qed

lemma revoke_all_append: "revoke_all (as @ bs) s = revoke_all bs (revoke_all as s)"
  by (induction as arbitrary: s) auto

lemma revoke_all_completed:
  "(\<forall>c\<in>set cs. Node_completed s c) \<Longrightarrow> revoke_all cs s = s"
proof (induction cs arbitrary: s)
  case Nil
  then show ?case by simp
next
  case (Cons c cs)
  then have "revoke_one c s = s"
    by (auto simp: revoke_one_def Node_completed_def split: option.splits)
  with Cons show ?case by simp
qed

lemma revoke_all_unlinked:
  assumes "\<forall>c\<in>set cs. heap s c \<noteq> None \<and> \<not> Node_completed s c \<and> get_prev s c = None \<and> get_next s c = None"
    and "distinct cs"
  shows "t_nextNode (revoke_all cs s) = (if cs = [] then t_nextNode s else None)"
  using assms
proof (induction cs arbitrary: s)
  case Nil
  then show ?case by simp
next
  case (Cons c cs)
  let ?s1 = "revoke_one c s"
  have c: "heap s c \<noteq> None" "\<not> Node_completed s c" "get_prev s c = None" "get_next s c = None"
    using Cons.prems by auto
  have inv: "\<forall>y\<in>set cs. heap ?s1 y \<noteq> None \<and> \<not> Node_completed ?s1 y \<and> get_prev ?s1 y = None \<and>
      get_next ?s1 y = None"
    using Cons.prems
    by (auto simp: revoke_one_node revoke_one_unlinked(2,3) [OF c])
  have "t_nextNode (revoke_all cs ?s1) = (if cs = [] then t_nextNode ?s1 else None)"
    using Cons.IH [OF inv] Cons.prems by simp
  then show ?case
    by (simp add: revoke_one_unlinked(1) [OF c])
qed


lemma chain_suffix: "chain h p (as @ bs) \<Longrightarrow> \<exists>q. chain h q bs"
  by (induction as arbitrary: p) (auto split: option.splits)

lemma chain_unique: "chain h p xs \<Longrightarrow> chain h p ys \<Longrightarrow> xs = ys"
proof (induction xs arbitrary: p ys)
  case Nil
  then show ?case by (cases ys) auto
next
  case (Cons x xs)
  then show ?case
    by (cases ys) (auto split: option.splits)
qed

lemma chain_distinct: "chain h p xs \<Longrightarrow> distinct xs"
proof (induction xs arbitrary: p)
  case Nil
  then show ?case by simp
next
  case (Cons x xs)
  then obtain n where n: "p = Some x" "h x = Some n" "chain h (subNode n) xs"
    by (auto split: option.splits)
  have "x \<notin> set xs"
  proof
    assume "x \<in> set xs"
    then obtain as bs where ab: "xs = as @ x # bs"
      by (auto dest: split_list)
    with n(3) obtain q where "chain h q (x # bs)"
      using chain_suffix by blast
    then have "chain h (Some x) (x # bs)"
      by simp
    with Cons.prems n have "x # bs = x # xs"
      using chain_unique by blast
    with ab show False by simp
  qed
  with Cons.IH [OF n(3)] show ?case by simp
qed

lemma chain_heap: "chain h p cs \<Longrightarrow> c \<in> set cs \<Longrightarrow> h c \<noteq> None"
  by (induction cs arbitrary: p) (auto split: option.splits)

lemma fire_nextRef [simp]: "nextRef (fire_onCompleted c s) = nextRef s"
  by (simp add: fire_onCompleted_eq split: option.split)

lemma revoke_one_nextRef [simp]: "nextRef (revoke_one c s) = nextRef s"
proof (rule revoke_one_cases [where c = c and s = s])
  assume "revoke_one c s = s"
  then show ?thesis by simp
next
  fix n s4
  assume l: "links_only (mark_completed c s) s4" and e: "revoke_one c s = fire_onCompleted c s4"
  from l have "nextRef s4 = nextRef s"
    by (simp add: links_only_def mark_completed_def upd_eq)
  then show ?thesis
    by (simp add: e)
qed

lemma revoke_all_nextRef [simp]: "nextRef (revoke_all cs s) = nextRef s"
  by (induction cs arbitrary: s) auto

lemma revoke_all_heap: "(heap (revoke_all cs s) y = None) = (heap s y = None)"
  by (induction cs arbitrary: s) (auto simp: revoke_one_node)

lemma revoke_all_onCompleted: "get_onCompleted (revoke_all cs s) y = get_onCompleted s y"
  by (induction cs arbitrary: s) (auto simp: revoke_one_node)

lemma revoke_all_done:
  "Node_completed (revoke_all cs s) y = (Node_completed s y \<or> (y \<in> set cs \<and> heap s y \<noteq> None))"
proof (induction cs arbitrary: s)
  case Nil
  then show ?case by simp
next
  case (Cons c cs)
  have "Node_completed (revoke_all (c # cs) s) y =
      (Node_completed (revoke_one c s) y \<or> (y \<in> set cs \<and> \<not> heap (revoke_one c s) y = None))"
    using Cons.IH [of "revoke_one c s"] by simp
  also have "\<dots> = (Node_completed s y \<or> (y \<in> set (c # cs) \<and> heap s y \<noteq> None))"
    unfolding revoke_one_node by auto
  finally show ?case .
qed

text \<open>A revocation settles a deferred in one way only: from pending to resolved.\<close>

definition settles :: "(deferred_id \<Rightarrow> settled option) \<Rightarrow> (deferred_id \<Rightarrow> settled option) \<Rightarrow> bool" where
  "settles ds ds' = (\<forall>d. ds' d = ds d \<or> (ds d = Some Pending \<and> ds' d = Some Resolved))"

lemma settles_refl [simp]: "settles ds ds"
  by (simp add: settles_def)

lemma settles_trans: "settles a b \<Longrightarrow> settles b c \<Longrightarrow> settles a c"
  unfolding settles_def by metis

lemma settles_resolved_at: "settles (deferreds s) (resolved_at s c)"
  by (simp add: settles_def resolved_at_def split: option.split)

lemma revoke_one_settles: "settles (deferreds s) (deferreds (revoke_one c s))"
  using revoke_one_effect [of c s] by (simp add: settles_resolved_at)

lemma revoke_all_settles: "settles (deferreds s) (deferreds (revoke_all cs s))"
proof (induction cs arbitrary: s)
  case Nil
  then show ?case by simp
next
  case (Cons c cs)
  show ?case
    using revoke_one_settles [of s c] Cons.IH [of "revoke_one c s"]
    by (auto intro: settles_trans)
qed

lemma revoke_all_trace:
  "\<exists>es. trace (revoke_all cs s) = trace s @ es \<and> set es \<subseteq> OnCompletedCall ` set cs"
proof (induction cs arbitrary: s)
  case Nil
  then show ?case by simp
next
  case (Cons c cs)
  obtain es where es: "trace (revoke_all cs (revoke_one c s)) = trace (revoke_one c s) @ es"
      "set es \<subseteq> OnCompletedCall ` set cs"
    using Cons.IH by blast
  have "set (fired_at s c) \<subseteq> {OnCompletedCall c}"
    by (auto simp: fired_at_def split: option.split)
  then have "\<exists>fs. trace (revoke_one c s) = trace s @ fs \<and> set fs \<subseteq> {OnCompletedCall c}"
    using revoke_one_effect [of c s] by simp
  then obtain fs where fs: "trace (revoke_one c s) = trace s @ fs" "set fs \<subseteq> {OnCompletedCall c}"
    by blast
  have "trace (revoke_all (c # cs) s) = trace s @ (fs @ es)"
    by (simp add: es fs)
  moreover have "set (fs @ es) \<subseteq> OnCompletedCall ` set (c # cs)"
    using es(2) fs(2) by auto
  ultimately show ?case by blast
qed

lemma revoke_all_terminal:
  assumes "t \<notin> set pre" "heap s t \<noteq> None" "\<not> Node_completed s t"
    and "get_onCompleted s t = Some d" "deferreds s d = Some Pending"
  shows "deferreds (revoke_all (pre @ [t]) s) d = Some Resolved"
    and "OnCompletedCall t \<in> set (trace (revoke_all (pre @ [t]) s))"
proof -
  define s1 where "s1 = revoke_all pre s"
  have e: "revoke_all (pre @ [t]) s = revoke_one t s1"
    by (simp add: revoke_all_append s1_def)
  have a: "\<not> Node_completed s1 t" "heap s1 t \<noteq> None" "get_onCompleted s1 t = Some d"
    using assms by (simp_all add: s1_def revoke_all_done revoke_all_heap revoke_all_onCompleted)
  have "settles (deferreds s) (deferreds s1)"
    by (simp add: s1_def revoke_all_settles)
  with assms(5) have p: "deferreds s1 d = Some Pending \<or> deferreds s1 d = Some Resolved"
    unfolding settles_def by metis
  have r: "trace (revoke_one t s1) = trace s1 @ fired_at s1 t"
    "deferreds (revoke_one t s1) = resolved_at s1 t"
    using revoke_one_effect [of t s1] a by simp_all
  show "deferreds (revoke_all (pre @ [t]) s) d = Some Resolved"
    using p a by (auto simp: e r resolved_at_def)
  show "OnCompletedCall t \<in> set (trace (revoke_all (pre @ [t]) s))"
    using a by (simp add: e r fired_at_def)
qed

lemma revoke_one_linked_other:
  assumes "dll s xs" "c \<in> set xs" "\<not> Node_completed s c" "y \<notin> set xs"
  shows "get_prev (revoke_one c s) y = get_prev s y" "get_next (revoke_one c s) y = get_next s y"
proof -
  have e: "revoke_one c s =
      fire_onCompleted c (unlinked c (prev_in xs c) (next_in xs c) (mark_completed c s))"
    using assms by (intro revoke_one_linked)
  have n: "next_in xs c \<noteq> Some y" "prev_in xs c \<noteq> Some y"
    using assms(4) next_in_mem [of xs c y] prev_in_mem [of xs c y] by auto
  have yc: "y \<noteq> c" using assms by auto
  have g: "get_prev (mark_completed c s) y = get_prev s y" "get_next (mark_completed c s) y = get_next s y"
    using yc by (simp_all add: get_prev_def get_next_def mark_completed_def upd_eq split: option.split)
  show "get_prev (revoke_one c s) y = get_prev s y"
  proof (cases "heap s y")
    case None
    then have "heap (revoke_one c s) y = None"
      by (simp add: revoke_one_node)
    with None show ?thesis by (simp add: get_prev_def)
  next
    case (Some k)
    then have "heap (mark_completed c s) y \<noteq> None"
      by (simp add: mark_completed_node)
    then show ?thesis
      using n g by (simp add: e get_prev_def [of "fire_onCompleted c _"] get_unlinked
          get_prev_def [symmetric])
  qed
  show "get_next (revoke_one c s) y = get_next s y"
  proof (cases "heap s y")
    case None
    then have "heap (revoke_one c s) y = None"
      by (simp add: revoke_one_node)
    with None show ?thesis by (simp add: get_next_def)
  next
    case (Some k)
    then have "heap (mark_completed c s) y \<noteq> None"
      by (simp add: mark_completed_node)
    then show ?thesis
      using n g by (simp add: e get_next_def [of "fire_onCompleted c _"] get_unlinked
          get_next_def [symmetric])
  qed
qed

lemma revoke_all_linked:
  assumes "dll s xs" "set occ \<subseteq> set xs" "distinct occ" "\<forall>c\<in>set occ. \<not> Node_completed s c"
  shows "dll (revoke_all occ s) (filter (\<lambda>x. x \<notin> set occ) xs) \<and>
     (\<forall>y. y \<notin> set xs \<longrightarrow> get_prev (revoke_all occ s) y = get_prev s y \<and>
                          get_next (revoke_all occ s) y = get_next s y)"
  using assms
proof (induction occ arbitrary: s xs)
  case Nil
  then show ?case by simp
next
  case (Cons c occ)
  let ?s1 = "revoke_one c s"
  have c: "c \<in> set xs" "\<not> Node_completed s c" "c \<notin> set occ"
    using Cons.prems by auto
  have d: "distinct xs"
    using Cons.prems(1) by (simp add: dll_alt)
  have d1: "dll ?s1 (remove1 c xs)"
    using Cons.prems(1) c by (intro revoke_one_linked)
  have sub: "set occ \<subseteq> set (remove1 c xs)"
    using Cons.prems(2) c d by auto
  have un: "\<forall>y\<in>set occ. \<not> Node_completed ?s1 y"
    using Cons.prems(4) c by (auto simp: revoke_one_node)
  have dis: "distinct occ"
    using Cons.prems(3) by simp
  note ih = Cons.IH [OF d1 sub dis un]
  have r: "remove1 c xs = filter (\<lambda>x. c \<noteq> x) xs"
    using d by (simp add: distinct_remove1_removeAll removeAll_filter_not_eq)
  have f: "filter (\<lambda>x. x \<notin> set occ) (remove1 c xs) = filter (\<lambda>x. x \<notin> set (c # occ)) xs"
    unfolding r by (auto intro!: filter_cong)
  have o: "get_prev (revoke_all occ ?s1) y = get_prev s y \<and>
           get_next (revoke_all occ ?s1) y = get_next s y" if y: "y \<notin> set xs" for y
  proof -
    from y have "y \<notin> set (remove1 c xs)"
      using d by auto
    with ih have "get_prev (revoke_all occ ?s1) y = get_prev ?s1 y"
      "get_next (revoke_all occ ?s1) y = get_next ?s1 y"
      by auto
    then show ?thesis
      using revoke_one_linked_other [OF Cons.prems(1) c(1,2) y] by simp
  qed
  show ?case
    using ih f o by simp
qed

lemma revoke_all_filter:
  "distinct cs \<Longrightarrow> revoke_all cs s = revoke_all (filter (\<lambda>c. \<not> Node_completed s c) cs) s"
proof (induction cs arbitrary: s)
  case Nil
  then show ?case by simp
next
  case (Cons c cs)
  let ?s1 = "revoke_one c s"
  have "Node_completed ?s1 y = Node_completed s y" if "y \<in> set cs" for y
    using that Cons.prems by (auto simp: revoke_one_node)
  then have f: "filter (\<lambda>c. \<not> Node_completed ?s1 c) cs = filter (\<lambda>c. \<not> Node_completed s c) cs"
    by (intro filter_cong) auto
  have ih: "revoke_all cs ?s1 = revoke_all (filter (\<lambda>c. \<not> Node_completed s c) cs) ?s1"
    using Cons.IH [of ?s1] Cons.prems by (simp add: f)
  show ?case
  proof (cases "Node_completed s c")
    case True
    then have "?s1 = s"
      by (auto simp: revoke_one_def Node_completed_def split: option.splits)
    with ih True show ?thesis by simp
  next
    case False
    with ih show ?thesis by simp
  qed
qed


section \<open>Nodes no tick can reach\<close>

fun is_call_of :: "ref \<Rightarrow> event \<Rightarrow> bool" where
  "is_call_of m (TimingCall r x) = (r = m)"
| "is_call_of m (AnimatorCall r x t) = (r = m)"
| "is_call_of m e = False"

definition calls_of :: "ref \<Rightarrow> timeline \<Rightarrow> event list" where
  "calls_of m s = filter (is_call_of m) (trace s)"

definition link_free :: "ref \<Rightarrow> node \<Rightarrow> bool" where
  "link_free m n =
     (prevNode n \<noteq> Some m \<and> nextNode n \<noteq> Some m \<and>
      (subNode n = Some m \<longrightarrow> completed n \<or> error n))"

definition detached :: "ref \<Rightarrow> timeline \<Rightarrow> bool" where
  "detached m s =
     (t_nextNode s \<noteq> Some m \<and> t_tailNode s \<noteq> Some m \<and>
      (\<forall>y n. heap s y = Some n \<longrightarrow> link_free m n))"

definition dormant :: "ref \<Rightarrow> timeline \<Rightarrow> bool" where
  "dormant m s = (m < nextRef s \<and> (Node_completed s m \<or> detached m s))"

lemma upd_fields [simp]:
  "t_nextNode (upd r f s) = t_nextNode s" "t_tailNode (upd r f s) = t_tailNode s"
  "nextRef (upd r f s) = nextRef s" "deferreds (upd r f s) = deferreds s"
  by (simp_all add: upd_eq)

lemma completed_upd_links [simp]:
  "Node_completed (upd r (\<lambda>n. n\<lparr>nextNode := v\<rparr>) s) m = Node_completed s m"
  "Node_completed (upd r (\<lambda>n. n\<lparr>prevNode := v\<rparr>) s) m = Node_completed s m"
  "Node_completed (upd r (\<lambda>n. n\<lparr>subNode := v\<rparr>) s) m = Node_completed s m"
  "Node_completed (upd r (\<lambda>n. n\<lparr>onCompleted := w\<rparr>) s) m = Node_completed s m"
  by (auto simp: Node_completed_def upd_eq split: option.splits)

lemma completed_fields [simp]:
  "Node_completed (s\<lparr>t_nextNode := v\<rparr>) m = Node_completed s m"
  "Node_completed (s\<lparr>t_tailNode := v\<rparr>) m = Node_completed s m"
  "Node_completed (s\<lparr>timer := a\<rparr>) m = Node_completed s m"
  "Node_completed (s\<lparr>clock := b\<rparr>) m = Node_completed s m"
  "Node_completed (s\<lparr>isPolling := c\<rparr>) m = Node_completed s m"
  "Node_completed (s\<lparr>world := d\<rparr>) m = Node_completed s m"
  "Node_completed (s\<lparr>rafPending := e\<rparr>) m = Node_completed s m"
  "Node_completed (s\<lparr>rafNext := f\<rparr>) m = Node_completed s m"
  "Node_completed (s\<lparr>deferreds := g\<rparr>) m = Node_completed s m"
  "Node_completed (s\<lparr>nextDeferred := h\<rparr>) m = Node_completed s m"
  "Node_completed (s\<lparr>trace := i\<rparr>) m = Node_completed s m"
  by (simp_all add: Node_completed_def)

lemma dormant_reach:
  assumes "dormant m s"
  shows "Node_completed s m \<or> get_next s y \<noteq> Some m" "Node_completed s m \<or> get_prev s y \<noteq> Some m"
    "Node_completed s m \<or> t_nextNode s \<noteq> Some m" "Node_completed s m \<or> t_tailNode s \<noteq> Some m"
  using assms
  by (auto simp: dormant_def detached_def link_free_def get_next_def get_prev_def split: option.splits)

lemma dormant_upd:
  assumes "dormant m s"
    and "\<And>n. completed n \<Longrightarrow> completed (f n)"
    and "\<And>n. \<not> Node_completed s m \<Longrightarrow> link_free m n \<Longrightarrow> link_free m (f n)"
  shows "dormant m (upd r f s)"
proof (cases "Node_completed s m")
  case True
  then have "Node_completed (upd r f s) m"
    using assms(2) by (auto simp: Node_completed_def upd_eq split: option.splits)
  with assms(1) show ?thesis
    by (simp add: dormant_def)
next
  case False
  with assms(1) have d: "detached m s"
    by (simp add: dormant_def)
  have "link_free m k" if "heap (upd r f s) y = Some k" for y k
  proof -
    from that consider "heap s y = Some k" | n where "heap s r = Some n" "k = f n"
      by (auto simp: upd_eq split: option.splits if_splits)
    then show ?thesis
      using d assms(3) [OF False] by cases (auto simp: detached_def)
  qed
  with d have "detached m (upd r f s)"
    by (simp add: detached_def)
  with assms(1) show ?thesis
    by (simp add: dormant_def)
qed

lemma dormant_upd_next:
  "dormant m s \<Longrightarrow> Node_completed s m \<or> v \<noteq> Some m \<Longrightarrow>
   dormant m (upd r (\<lambda>n. n\<lparr>nextNode := v\<rparr>) s)"
  by (rule dormant_upd) (auto simp: link_free_def)

lemma dormant_upd_prev:
  "dormant m s \<Longrightarrow> Node_completed s m \<or> v \<noteq> Some m \<Longrightarrow>
   dormant m (upd r (\<lambda>n. n\<lparr>prevNode := v\<rparr>) s)"
  by (rule dormant_upd) (auto simp: link_free_def)

lemma dormant_upd_sub:
  "dormant m s \<Longrightarrow> Node_completed s m \<or> v \<noteq> Some m \<Longrightarrow>
   dormant m (upd r (\<lambda>n. n\<lparr>subNode := v\<rparr>) s)"
  by (rule dormant_upd) (auto simp: link_free_def)

lemma dormant_upd_completed:
  "dormant m s \<Longrightarrow> dormant m (upd r (\<lambda>n. n\<lparr>completed := True\<rparr>) s)"
  by (rule dormant_upd) (auto simp: link_free_def)

lemma dormant_upd_onCompleted:
  "dormant m s \<Longrightarrow> dormant m (upd r (\<lambda>n. n\<lparr>onCompleted := w\<rparr>) s)"
  by (rule dormant_upd) (auto simp: link_free_def)

lemma dormant_head:
  "dormant m s \<Longrightarrow> Node_completed s m \<or> v \<noteq> Some m \<Longrightarrow> dormant m (s\<lparr>t_nextNode := v\<rparr>)"
  by (auto simp: dormant_def detached_def)

lemma dormant_tail:
  "dormant m s \<Longrightarrow> Node_completed s m \<or> v \<noteq> Some m \<Longrightarrow> dormant m (s\<lparr>t_tailNode := v\<rparr>)"
  by (auto simp: dormant_def detached_def)

lemma dormant_same:
  "heap s' = heap s \<Longrightarrow> nextRef s' = nextRef s \<Longrightarrow> t_nextNode s' = t_nextNode s \<Longrightarrow>
   t_tailNode s' = t_tailNode s \<Longrightarrow> dormant m s' = dormant m s"
  by (simp add: dormant_def detached_def Node_completed_def)

lemma dormant_fire [simp]: "dormant m (fire_onCompleted c s) = dormant m s"
  by (rule dormant_same) simp_all

lemma dormant_emit [simp]: "dormant m (emit e s) = dormant m s"
  by (rule dormant_same) simp_all

lemma dormant_remove:
  assumes "dormant m s"
  shows "dormant m (Node_remove r s)"
proof -
  define s1 where "s1 = (case get_prev s r of
                  Some p \<Rightarrow> upd p (\<lambda>n. n\<lparr>nextNode := get_next s r\<rparr>) s
                | None \<Rightarrow> s\<lparr>t_nextNode := get_next s r\<rparr>)"
  define s2 where "s2 = (case get_next s1 r of
                  Some q \<Rightarrow> upd q (\<lambda>n. n\<lparr>prevNode := get_prev s1 r\<rparr>) s1
                | None \<Rightarrow> s1)"
  define s3 where "s3 = (if t_tailNode s2 = Some r then s2\<lparr>t_tailNode := get_prev s2 r\<rparr> else s2)"
  define s4 where "s4 = (if t_nextNode s3 = Some r then s3\<lparr>t_nextNode := get_next s3 r\<rparr> else s3)"
  have e: "Node_remove r s = fire_onCompleted r s4"
    unfolding Node_remove_def Let_def s4_def s3_def s2_def s1_def ..
  have 1: "dormant m s1"
    using assms dormant_reach(1) [OF assms, of r]
    by (simp add: s1_def dormant_upd_next dormant_head split: option.split)
  have 2: "dormant m s2"
    using 1 dormant_reach(2) [OF 1, of r]
    by (simp add: s2_def dormant_upd_prev split: option.split)
  have 3: "dormant m s3"
    using 2 dormant_reach(2) [OF 2, of r]
    by (simp add: s3_def dormant_tail)
  have 4: "dormant m s4"
    using 3 dormant_reach(1) [OF 3, of r]
    by (simp add: s4_def dormant_head)
  then show ?thesis
    by (simp add: e)
qed

lemma dormant_replace:
  assumes "dormant m s" "Node_completed s m \<or> nd \<noteq> m"
  shows "dormant m (Node_replace r nd s)"
proof -
  define s1 where "s1 = upd nd (\<lambda>n. n\<lparr>prevNode := get_prev s r\<rparr>) s"
  define s2 where "s2 = upd nd (\<lambda>n. n\<lparr>nextNode := get_next s1 r\<rparr>) s1"
  define s3a where "s3a = (if t_tailNode s2 = Some r then s2\<lparr>t_tailNode := Some nd\<rparr> else s2)"
  define s3 where "s3 = (if t_nextNode s3a = Some r then s3a\<lparr>t_nextNode := Some nd\<rparr> else s3a)"
  define s4a where "s4a = (case get_prev s3 r of
                  Some p \<Rightarrow> upd p (\<lambda>n. n\<lparr>nextNode := Some nd\<rparr>) s3
                | None \<Rightarrow> s3)"
  define s4 where "s4 = (case get_next s4a r of
           Some q \<Rightarrow> upd q (\<lambda>n. n\<lparr>prevNode := Some nd\<rparr>) s4a
         | None \<Rightarrow> s4a)"
  have e: "Node_replace r nd s = fire_onCompleted r s4"
    unfolding Node_replace_def Node_updateTimelineReferences_def Node_updateNodeLinks_def Let_def
      s4_def s4a_def s3_def s3a_def s2_def s1_def ..
  have 1: "dormant m s1" and c1: "Node_completed s1 m \<or> nd \<noteq> m"
    using assms dormant_reach(2) [OF assms(1), of r]
    by (simp_all add: s1_def dormant_upd_prev)
  have 2: "dormant m s2" and c2: "Node_completed s2 m \<or> nd \<noteq> m"
    using 1 c1 dormant_reach(1) [OF 1, of r]
    by (simp_all add: s2_def dormant_upd_next)
  have 3: "dormant m s3a" and c3: "Node_completed s3a m \<or> nd \<noteq> m"
    using 2 c2 by (auto simp: s3a_def dormant_tail)
  have 4: "dormant m s3" and c4: "Node_completed s3 m \<or> nd \<noteq> m"
    using 3 c3 by (auto simp: s3_def dormant_head)
  have 5: "dormant m s4a" and c5: "Node_completed s4a m \<or> nd \<noteq> m"
    using 4 c4 by (auto simp: s4a_def dormant_upd_next split: option.split)
  have 6: "dormant m s4"
    using 5 c5 by (auto simp: s4_def dormant_upd_prev split: option.split)
  then show ?thesis
    by (simp add: e)
qed

lemma dormant_complete:
  assumes "dormant m s"
  shows "dormant m (Node_complete x s)"
proof (cases "heap s x")
  case None
  with assms show ?thesis by (simp add: Node_complete_def)
next
  case (Some n)
  show ?thesis
  proof (cases "completed n")
    case True
    with Some assms show ?thesis by (simp add: Node_complete_def)
  next
    case False
    define s1 where "s1 = upd x (\<lambda>n. n\<lparr>completed := True\<rparr>) s"
    have d1: "dormant m s1"
      using assms by (simp add: s1_def dormant_upd_completed)
    have mono: "Node_completed s m \<Longrightarrow> Node_completed s1 m"
      by (auto simp: s1_def Node_completed_def upd_eq split: option.splits)
    have e: "Node_complete x s =
       (case subNode n of
          Some nd \<Rightarrow> if \<not> error n then Node_replace x nd s1 else Node_remove x s1
        | None \<Rightarrow> Node_remove x s1)"
      unfolding s1_def using Some False by (simp add: Node_complete_def Let_def)
    show ?thesis
    proof (cases "subNode n")
      case None
      with d1 show ?thesis by (simp add: e dormant_remove)
    next
      case sub: (Some nd)
      show ?thesis
      proof (cases "error n")
        case True
        with sub d1 show ?thesis by (simp add: e dormant_remove)
      next
        case noerr: False
        have "Node_completed s m \<or> nd \<noteq> m"
          using assms Some False noerr sub
          by (auto simp: dormant_def detached_def link_free_def)
        with mono have "Node_completed s1 m \<or> nd \<noteq> m"
          by auto
        with d1 sub noerr show ?thesis
          by (simp add: e dormant_replace)
      qed
    qed
  qed
qed

lemma dormant_tick:
  assumes "dormant m s"
  shows "dormant m (snd (Node_tick x ts s))"
proof (rule Node_tick_cases3 [where x = x and ts = ts and s = s])
  assume "snd (Node_tick x ts s) = s"
  with assms show ?thesis by simp
next
  fix n
  assume n: "heap s x = Some n" "\<not> completed n" "\<not> error n"
  define n' where "n' = n\<lparr>started := True, startTime := tick_start s n,
                          error := (tick_thrown n (tick_raw s n ts) \<noteq> None)\<rparr>"
  have h: "heap (snd (Node_tick x ts s)) = (heap s)(x \<mapsto> n')"
    and f: "nextRef (snd (Node_tick x ts s)) = nextRef s"
      "t_nextNode (snd (Node_tick x ts s)) = t_nextNode s"
      "t_tailNode (snd (Node_tick x ts s)) = t_tailNode s"
    by (simp_all add: Node_tick_live_state [OF n] n'_def)
  have c: "Node_completed (snd (Node_tick x ts s)) m = Node_completed s m"
    by (simp add: Node_tick_links)
  show ?thesis
  proof (cases "Node_completed s m")
    case True
    with assms show ?thesis
      by (simp add: dormant_def c f)
  next
    case False
    with assms have d: "detached m s"
      by (simp add: dormant_def)
    then have "link_free m n"
      using n by (auto simp: detached_def)
    then have "link_free m n'"
      using n(2,3) by (simp add: link_free_def n'_def)
    with d have "detached m (snd (Node_tick x ts s))"
      by (auto simp: detached_def h f)
    with assms show ?thesis
      by (simp add: dormant_def f)
  qed
qed

lemma calls_of_append:
  "trace s' = trace s @ es \<Longrightarrow> \<forall>e\<in>set es. \<not> is_call_of m e \<Longrightarrow> calls_of m s' = calls_of m s"
  by (simp add: calls_of_def)

lemma completion_no_call: "is_completion e \<Longrightarrow> \<not> is_call_of m e"
  by (cases e) auto

lemma tick_calls_ref: "e \<in> set (tick_calls x n raw) \<Longrightarrow> x \<noteq> m \<Longrightarrow> \<not> is_call_of m e"
  by (auto simp: tick_calls_def split: option.splits sum.splits)

lemma calls_tick:
  assumes "x \<noteq> m \<or> Node_completed s m"
  shows "calls_of m (snd (Node_tick x ts s)) = calls_of m s"
proof (rule Node_tick_cases3 [where x = x and ts = ts and s = s])
  assume "snd (Node_tick x ts s) = s"
  then show ?thesis by simp
next
  fix n
  assume n: "heap s x = Some n" "\<not> completed n" "\<not> error n"
  with assms have "x \<noteq> m"
    by (auto simp: Node_completed_def)
  moreover have "trace (snd (Node_tick x ts s)) = trace s @ tick_calls x n (tick_raw s n ts)"
    by (simp add: Node_tick_live_state [OF n])
  ultimately show ?thesis
    by (auto intro!: calls_of_append dest: tick_calls_ref)
qed

lemma calls_complete: "calls_of m (Node_complete x s) = calls_of m s"
  using Node_complete_frame [of s x] by (auto intro!: calls_of_append dest: completion_no_call)

lemma calls_emit: "\<not> is_call_of m e \<Longrightarrow> calls_of m (emit e s) = calls_of m s"
  by (simp add: calls_of_def)

lemma completeNodes_dormant:
  "dormant m s \<Longrightarrow> dormant m (Timeline_completeNodes ns s) \<and>
     calls_of m (Timeline_completeNodes ns s) = calls_of m s"
proof (induction ns arbitrary: s)
  case Nil
  then show ?case by simp
next
  case (Cons c cs)
  define s1 where "s1 = Node_complete c (emit (CompleteCall c) s)"
  have d: "dormant m s1"
    using Cons.prems by (simp add: s1_def dormant_complete)
  have c: "calls_of m s1 = calls_of m s"
    by (simp add: s1_def calls_complete calls_emit)
  have e: "Timeline_completeNodes (c # cs) s = Timeline_completeNodes cs s1"
    by (simp add: s1_def)
  from Cons.IH [OF d] c show ?case
    unfolding e by simp
qed


lemma processNodes_dormant:
  assumes "processNodes_loop cur ts acc s = Some r"
  shows "dormant m s \<longrightarrow> cur \<noteq> Some m \<or> Node_completed s m \<longrightarrow>
         dormant m (snd r) \<and> calls_of m (snd r) = calls_of m s"
proof -
  define P where "P = (\<lambda>(cur :: ref option) (ts :: real) (acc :: ref list) s (r :: ref list \<times> timeline).
      dormant m s \<longrightarrow> cur \<noteq> Some m \<or> Node_completed s m \<longrightarrow>
      dormant m (snd r) \<and> calls_of m (snd r) = calls_of m s)"
  have "P cur ts acc s r"
  proof (rule processNodes_loop.raw_induct [where P = P, OF _ assms])
    fix loop :: "ref option \<Rightarrow> real \<Rightarrow> ref list \<Rightarrow> timeline \<Rightarrow> (ref list \<times> timeline) option"
    fix cur ts acc s r
    assume ih: "\<And>cur ts acc s r. loop cur ts acc s = Some r \<Longrightarrow> P cur ts acc s r"
      and body: "(case cur of
          None \<Rightarrow> Some (acc, s)
        | Some c \<Rightarrow>
            (let (isDone, s1) = Node_tick c ts (emit (TickCall c ts) s);
                 nodes1 = (if isDone \<and> c \<notin> set acc then acc @ [c] else acc)
             in loop (get_next s1 c) ts nodes1 s1)) = Some r"
    show "P cur ts acc s r"
    proof (cases cur)
      case None
      with body show ?thesis by (auto simp: P_def)
    next
      case (Some c)
      define s1 where "s1 = snd (Node_tick c ts (emit (TickCall c ts) s))"
      define acc1 where "acc1 =
        (if fst (Node_tick c ts (emit (TickCall c ts) s)) \<and> c \<notin> set acc then acc @ [c] else acc)"
      from body Some have step: "loop (get_next s1 c) ts acc1 s1 = Some r"
        by (simp add: split_beta Let_def s1_def acc1_def)
      have "dormant m (snd r) \<and> calls_of m (snd r) = calls_of m s"
        if d: "dormant m s" and c: "cur \<noteq> Some m \<or> Node_completed s m"
      proof -
        have d1: "dormant m s1"
          unfolding s1_def using d by (intro dormant_tick) simp
        have "calls_of m s1 = calls_of m (emit (TickCall c ts) s)"
          unfolding s1_def using c Some by (intro calls_tick) auto
        then have c1: "calls_of m s1 = calls_of m s"
          by (simp add: calls_emit)
        have n1: "get_next s1 c \<noteq> Some m \<or> Node_completed s1 m"
          using dormant_reach(1) [OF d1, of c] by auto
        have "P (get_next s1 c) ts acc1 s1 r"
          using step by (rule ih)
        with d1 n1 have "dormant m (snd r) \<and> calls_of m (snd r) = calls_of m s1"
          unfolding P_def by blast
        with c1 show ?thesis
          by simp
      qed
      then show ?thesis
        unfolding P_def by blast
    qed
  qed
  then show ?thesis
    by (simp add: P_def)
qed

text \<open>Functions that touch the frame driver, the clock and the two ends of the list only.\<close>

definition driver_only :: "timeline \<Rightarrow> timeline \<Rightarrow> bool" where
  "driver_only s s' =
     (heap s' = heap s \<and> nextRef s' = nextRef s \<and> trace s' = trace s \<and>
      (t_nextNode s' = t_nextNode s \<and> t_tailNode s' = t_tailNode s \<or>
       t_nextNode s' = None \<and> t_tailNode s' = None))"

lemma driver_only_refl [simp]: "driver_only s s"
  by (simp add: driver_only_def)

lemma driver_only_dormant:
  "driver_only s s' \<Longrightarrow> dormant m s \<Longrightarrow> dormant m s' \<and> calls_of m s' = calls_of m s"
  by (auto simp: driver_only_def dormant_def detached_def Node_completed_def calls_of_def)

lemma driver_only_stop: "driver_only s (Timeline_stopAnimation s)"
  by (simp add: driver_only_def Timeline_stopAnimation_def cancelAnimationFrame_def
      split: option.split)

lemma driver_only_reset: "driver_only s (Timeline_reset s)"
  by (simp add: driver_only_def Timeline_reset_def Timeline_resetState_def
      Timeline_stopAnimation_def cancelAnimationFrame_def split: option.split)

lemma driver_only_cleanup: "driver_only s (Timeline_cleanup s)"
  by (simp add: driver_only_def Timeline_cleanup_def Timeline_reset_def Timeline_resetState_def
      Timeline_stopAnimation_def cancelAnimationFrame_def split: option.split)

lemma driver_only_launch: "driver_only s (Timeline_launch s)"
  by (simp add: driver_only_def Timeline_launch_def requestAnimationFrame_def)

lemma driver_only_start: "driver_only s (Timeline_start s)"
  by (simp add: driver_only_def Timeline_start_def Timeline_launch_def requestAnimationFrame_def)

lemma driver_only_pause: "driver_only s (Timeline_pause s)"
  by (simp add: driver_only_def Timeline_pause_def cancelAnimationFrame_def split_beta
      split: option.split)

lemma driver_only_resume: "driver_only s (Timeline_resume s)"
  by (simp add: driver_only_def Timeline_resume_def Timeline_launch_def requestAnimationFrame_def
      split_beta)

lemma poll_dormant:
  assumes "Timeline_poll s = Some (b, s')" "dormant m s"
  shows "dormant m s' \<and> calls_of m s' = calls_of m s"
proof (cases "isPaused (clock s) \<or> t_nextNode s = None")
  case True
  with assms show ?thesis
    by (simp add: Timeline_poll_def)
next
  case False
  define s1 where "s1 = s\<lparr>world := snd (Clock_now (clock s) (world s))\<rparr>"
  have c: "Timeline_clock_now s = (sweep_now s, s1)"
    by (simp add: Timeline_clock_now_def sweep_now_def s1_def split_beta)
  have g: "(isPaused (clock s) \<or> t_nextNode s = None) = False"
    using False by simp
  have e: "Timeline_poll s =
     (case Timeline_processNodes (sweep_now s) s1 of
        None \<Rightarrow> None
      | Some (nodesToComplete, s2) \<Rightarrow>
          (let s3 = (if 0 < length nodesToComplete
                     then Timeline_completeNodes nodesToComplete s2 else s2);
               hasMoreNodes = (t_nextNode s3 \<noteq> None);
               s4 = (if \<not> hasMoreNodes then s3\<lparr>isPolling := False\<rparr> else s3)
           in Some (hasMoreNodes, s4)))"
    unfolding Timeline_poll_def g by (simp add: c)
  from assms(1) obtain ns s2 where p: "Timeline_processNodes (sweep_now s) s1 = Some (ns, s2)"
    unfolding e by (cases "Timeline_processNodes (sweep_now s) s1") auto
  define s3 where "s3 = (if 0 < length ns then Timeline_completeNodes ns s2 else s2)"
  have s': "s' = (if t_nextNode s3 = None then s3\<lparr>isPolling := False\<rparr> else s3)"
    using assms(1) unfolding e p s3_def by (auto simp: Let_def)
  have d1: "dormant m s1" "calls_of m s1 = calls_of m s"
    using assms(2) driver_only_dormant [of s s1 m] by (simp_all add: driver_only_def s1_def)
  have h1: "t_nextNode s1 \<noteq> Some m \<or> Node_completed s1 m"
    using dormant_reach(3) [OF d1(1)] by auto
  have d2: "dormant m s2 \<and> calls_of m s2 = calls_of m s1"
    using processNodes_dormant [OF p [unfolded Timeline_processNodes_def], of m] d1(1) h1 by simp
  have d3: "dormant m s3 \<and> calls_of m s3 = calls_of m s2"
    using d2 completeNodes_dormant [of m s2 ns] by (simp add: s3_def)
  have "driver_only s3 s'"
    by (simp add: s' driver_only_def)
  with d3 have "dormant m s' \<and> calls_of m s' = calls_of m s3"
    using driver_only_dormant by blast
  with d1 d2 d3 show ?thesis
    by simp
qed

lemma loop_dormant:
  assumes "Timeline_loop s = Some s'" "dormant m s"
  shows "dormant m s' \<and> calls_of m s' = calls_of m s"
proof -
  from assms(1) obtain b s1 where p: "Timeline_poll s = Some (b, s1)"
    by (cases "Timeline_poll s") (auto simp: Timeline_loop_def)
  have s': "s' = (if b then (snd (requestAnimationFrame s1))\<lparr>timer := Some (fst (requestAnimationFrame s1))\<rparr>
                  else Timeline_cleanup s1)"
    using assms(1) by (auto simp: Timeline_loop_def p split_beta split: if_splits)
  have "driver_only s1 s'"
    unfolding s' using driver_only_cleanup [of s1]
    by (simp add: driver_only_def requestAnimationFrame_def)
  then have "dormant m s1 \<Longrightarrow> dormant m s' \<and> calls_of m s' = calls_of m s1"
    using driver_only_dormant by blast
  with poll_dormant [OF p assms(2)] show ?thesis
    by simp
qed

lemma frame_dormant:
  assumes "frame s = Some s'" "dormant m s"
  shows "dormant m s' \<and> calls_of m s' = calls_of m s"
proof (cases "rafPending s")
  case Nil
  with assms show ?thesis by (simp add: frame_def)
next
  case (Cons i rest)
  with assms(1) have l: "Timeline_loop (s\<lparr>rafPending := rest\<rparr>) = Some s'"
    by (simp add: frame_def)
  have "driver_only s (s\<lparr>rafPending := rest\<rparr>)"
    by (simp add: driver_only_def)
  with assms(2) have d: "dormant m (s\<lparr>rafPending := rest\<rparr>)"
    "calls_of m (s\<lparr>rafPending := rest\<rparr>) = calls_of m s"
    using driver_only_dormant by blast+
  with loop_dormant [OF l d(1)] show ?thesis
    by simp
qed

lemma calls_same: "trace s' = trace s \<Longrightarrow> calls_of m s' = calls_of m s"
  by (simp add: calls_of_def)

lemma calls_remove: "calls_of m (Node_remove r s) = calls_of m s"
proof -
  obtain s4 where l: "links_only s s4" and e: "Node_remove r s = fire_onCompleted r s4"
    using Node_remove_split by blast
  obtain es where es: "trace (fire_onCompleted r s4) = trace s4 @ es" "\<forall>e\<in>set es. is_completion e"
    using fire_trace by blast
  from l have "trace s4 = trace s"
    by (simp add: links_only_def)
  with es show ?thesis
    unfolding e by (auto intro!: calls_of_append dest: completion_no_call)
qed

lemma revoke_step_dormant:
  assumes "dormant m s"
  shows "dormant m (if \<not> completed n then Node_remove c (upd c (\<lambda>n. n\<lparr>completed := True\<rparr>) s) else s) \<and>
     calls_of m (if \<not> completed n then Node_remove c (upd c (\<lambda>n. n\<lparr>completed := True\<rparr>) s) else s)
       = calls_of m s"
proof -
  have "calls_of m (upd c (\<lambda>n. n\<lparr>completed := True\<rparr>) s) = calls_of m s"
    by (simp add: calls_of_def)
  with assms show ?thesis
    by (simp add: dormant_remove dormant_upd_completed calls_remove)
qed

lemma revokeSubNodes_dormant:
  assumes "revokeSubNodes_loop cur s = Some s'"
  shows "dormant m s \<longrightarrow> dormant m s' \<and> calls_of m s' = calls_of m s"
proof -
  define P where "P = (\<lambda>(cur :: ref option) s s'.
      dormant m s \<longrightarrow> dormant m s' \<and> calls_of m s' = calls_of m s)"
  have "P cur s s'"
  proof (rule revokeSubNodes_loop.raw_induct [where P = P, OF _ assms])
    fix loop :: "ref option \<Rightarrow> timeline \<Rightarrow> timeline option"
    fix cur s s'
    assume ih: "\<And>cur s s'. loop cur s = Some s' \<Longrightarrow> P cur s s'"
      and body: "(case cur of
          None \<Rightarrow> Some s
        | Some c \<Rightarrow>
            (case heap s c of
               None \<Rightarrow> Some s
             | Some n \<Rightarrow>
                 (let s1 = (if \<not> completed n
                            then Node_remove c (upd c (\<lambda>n. n\<lparr>completed := True\<rparr>) s)
                            else s)
                  in loop (get_sub s1 c) s1))) = Some s'"
    show "P cur s s'"
    proof (cases cur)
      case None
      with body show ?thesis by (auto simp: P_def)
    next
      case (Some c)
      show ?thesis
      proof (cases "heap s c")
        case None
        with body Some show ?thesis by (auto simp: P_def)
      next
        case n: (Some n)
        define s1 where "s1 = (if \<not> completed n
            then Node_remove c (upd c (\<lambda>n. n\<lparr>completed := True\<rparr>) s) else s)"
        from body Some n have step: "loop (get_sub s1 c) s1 = Some s'"
          unfolding s1_def by (simp add: Let_def)
        have "dormant m s' \<and> calls_of m s' = calls_of m s" if d: "dormant m s"
        proof -
          from d have "dormant m s1 \<and> calls_of m s1 = calls_of m s"
            unfolding s1_def by (rule revoke_step_dormant)
          moreover have "P (get_sub s1 c) s1 s'"
            using step by (rule ih)
          ultimately show ?thesis
            unfolding P_def by simp
        qed
        then show ?thesis
          unfolding P_def by blast
      qed
    qed
  qed
  then show ?thesis
    by (simp add: P_def)
qed

lemma revoke_dormant:
  assumes "Node_revoke r s = Some s'" "dormant m s"
  shows "dormant m s' \<and> calls_of m s' = calls_of m s"
proof (cases "heap s r")
  case None
  with assms show ?thesis by (simp add: Node_revoke_def)
next
  case (Some n)
  define s1 where "s1 = (if \<not> completed n
      then Node_remove r (upd r (\<lambda>n. n\<lparr>completed := True\<rparr>) s) else s)"
  have d1: "dormant m s1 \<and> calls_of m s1 = calls_of m s"
    unfolding s1_def using assms(2) by (rule revoke_step_dormant)
  from assms(1) Some have e: "Node_revokeSubNodes r s1 = Some s'"
    unfolding s1_def by (simp add: Node_revoke_def Let_def)
  show ?thesis
  proof (cases "get_sub s1 r")
    case None
    with e have "s' = s1" by (simp add: Node_revokeSubNodes_def)
    with d1 show ?thesis by simp
  next
    case sub: (Some nd)
    with e have "revokeSubNodes_loop (Some nd) s1 = Some s'"
      by (simp add: Node_revokeSubNodes_def)
    from revokeSubNodes_dormant [OF this, of m] d1 show ?thesis
      by simp
  qed
qed


lemma new_Node_dormant:
  assumes "dormant m s" "Node_completed s m \<or> (p \<noteq> Some m \<and> nx \<noteq> Some m)"
  shows "dormant m (snd (new_Node init oe p nx s))"
    and "calls_of m (snd (new_Node init oe p nx s)) = calls_of m s"
    and "fst (new_Node init oe p nx s) \<noteq> m"
proof -
  from assms(1) have m: "m < nextRef s"
    by (simp add: dormant_def)
  show "fst (new_Node init oe p nx s) \<noteq> m"
    using m by (simp add: new_Node_def)
  show "calls_of m (snd (new_Node init oe p nx s)) = calls_of m s"
    by (simp add: new_Node_def calls_of_def)
  show "dormant m (snd (new_Node init oe p nx s))"
  proof (cases "Node_completed s m")
    case True
    with m show ?thesis
      by (simp add: dormant_def Node_completed_def new_Node_def)
  next
    case False
    with assms have d: "detached m s" and l: "p \<noteq> Some m" "nx \<noteq> Some m"
      by (auto simp: dormant_def)
    have "detached m (snd (new_Node init oe p nx s))"
      using d l by (auto simp: detached_def new_Node_def link_free_def)
    with m show ?thesis
      by (simp add: dormant_def new_Node_def)
  qed
qed

lemma linkRootNode_dormant:
  assumes "dormant m s" "rootNode \<noteq> m"
  shows "dormant m (Timeline_linkRootNode rootNode s) \<and>
         calls_of m (Timeline_linkRootNode rootNode s) = calls_of m s"
proof -
  define s1 where "s1 = (if t_nextNode s = None then s\<lparr>t_nextNode := Some rootNode\<rparr> else s)"
  define s2 where "s2 = (case t_tailNode s1 of
                  Some tailNode \<Rightarrow> upd tailNode (\<lambda>n. n\<lparr>nextNode := Some rootNode\<rparr>) s1
                | None \<Rightarrow> s1)"
  have e: "Timeline_linkRootNode rootNode s = s2\<lparr>t_tailNode := Some rootNode\<rparr>"
    unfolding Timeline_linkRootNode_def Let_def s2_def s1_def ..
  have 1: "dormant m s1" "trace s1 = trace s"
    using assms by (simp_all add: s1_def dormant_head)
  have 2: "dormant m s2" "trace s2 = trace s1"
    using 1 assms(2) by (simp_all add: s2_def dormant_upd_next split: option.split)
  have 3: "dormant m (s2\<lparr>t_tailNode := Some rootNode\<rparr>)"
    using 2 assms(2) by (simp add: dormant_tail)
  then show ?thesis
    using 1 2 by (simp add: e calls_of_def)
qed

lemma linkChildNodes_dormant:
  "dormant m s \<Longrightarrow>
   dormant m (snd (linkChildNodes_loop cur inits rej s)) \<and>
   calls_of m (snd (linkChildNodes_loop cur inits rej s)) = calls_of m s"
proof (induction inits arbitrary: cur s)
  case Nil
  then show ?case by simp
next
  case (Cons init inits)
  define child where "child = fst (new_Node init (Some rej) None None s)"
  define s1 where "s1 = snd (new_Node init (Some rej) None None s)"
  define s2 where "s2 = upd cur (\<lambda>n. n\<lparr>subNode := Some child\<rparr>) s1"
  have e: "linkChildNodes_loop cur (init # inits) rej s = linkChildNodes_loop child inits rej s2"
    by (simp add: split_beta Let_def child_def s1_def s2_def)
  have 1: "dormant m s1" "calls_of m s1 = calls_of m s" "child \<noteq> m"
    unfolding s1_def child_def using Cons.prems by (intro new_Node_dormant; simp)+
  have 2: "dormant m s2" "calls_of m s2 = calls_of m s1"
    using 1 by (simp_all add: s2_def dormant_upd_sub calls_of_def)
  from Cons.IH [OF 2(1), of child] 1 2 show ?case
    unfolding e by simp
qed

lemma createAndLink_dormant:
  assumes "dormant m s"
  shows "dormant m (Timeline_createAndLinkChildNodes rootNode inits d s) \<and>
     calls_of m (Timeline_createAndLinkChildNodes rootNode inits d s) = calls_of m s"
proof -
  define s1 where "s1 = snd (linkChildNodes_loop rootNode inits d s)"
  have 1: "dormant m s1 \<and> calls_of m s1 = calls_of m s"
    unfolding s1_def using assms by (rule linkChildNodes_dormant)
  have e: "Timeline_createAndLinkChildNodes rootNode inits d s =
      upd (fst (linkChildNodes_loop rootNode inits d s)) (\<lambda>n. n\<lparr>onCompleted := Some d\<rparr>) s1"
    by (simp add: Timeline_createAndLinkChildNodes_def split_beta s1_def)
  show ?thesis
    using 1 by (simp add: e dormant_upd_onCompleted calls_of_def)
qed

lemma enqueue_dormant:
  assumes "dormant m s"
  shows "dormant m (snd (Timeline_enqueue inits s)) \<and>
         calls_of m (snd (Timeline_enqueue inits s)) = calls_of m s"
proof (cases "Timeline_normalizeAnimationInitials inits")
  case Nil
  then show ?thesis
    using assms by (simp add: Timeline_enqueue_def)
next
  case (Cons first rest)
  define s1 where "s1 = snd (deferred s)"
  define d where "d = fst (deferred s)"
  define rootNode where "rootNode = fst (Timeline_createRootNode first d s1)"
  define s2 where "s2 = snd (Timeline_createRootNode first d s1)"
  define s3 where "s3 = Timeline_linkRootNode rootNode s2"
  define s4 where "s4 = Timeline_createAndLinkChildNodes rootNode rest d s3"
  define s5 where "s5 = (if \<not> isPolling s4 then Timeline_start s4 else s4)"
  have e: "snd (Timeline_enqueue inits s) = (if length inits < 1 then s else s5)"
    unfolding s5_def s4_def s3_def s2_def rootNode_def s1_def d_def Timeline_enqueue_def Cons
    by (simp add: split_beta Let_def)
  have "driver_only s s1"
    by (simp add: s1_def deferred_def driver_only_def)
  with assms have 1: "dormant m s1 \<and> calls_of m s1 = calls_of m s"
    using driver_only_dormant by blast
  have t: "Node_completed s1 m \<or> (t_tailNode s1 \<noteq> Some m \<and> None \<noteq> Some m)"
    using 1 dormant_reach(4) [of m s1] by auto
  have 2: "dormant m s2" "calls_of m s2 = calls_of m s1" "rootNode \<noteq> m"
    unfolding s2_def rootNode_def Timeline_createRootNode_def
    using 1 t by (intro new_Node_dormant; simp)+
  have 3: "dormant m s3 \<and> calls_of m s3 = calls_of m s2"
    unfolding s3_def using 2 by (intro linkRootNode_dormant)
  have 4: "dormant m s4 \<and> calls_of m s4 = calls_of m s3"
    unfolding s4_def using 3 by (intro createAndLink_dormant) simp
  have "driver_only s4 s5"
    by (simp add: s5_def driver_only_start)
  with 4 have 5: "dormant m s5 \<and> calls_of m s5 = calls_of m s4"
    using driver_only_dormant by blast
  show ?thesis
    using assms 1 2 3 4 5 by (simp add: e)
qed

text \<open>
  What a client can do to a scheduler, one call at a time: a pulse of the frame driver, the
  methods of the timeline, \<^verbatim>\<open>revoke()\<close> on a node, and the methods of the clock the
  getter \<^verbatim>\<open>clock\<close> hands out.
\<close>

datatype action =
    Frame
  | Animate "AnimationInitial list"
  | Revoke ref
  | Pause
  | Resume
  | Start
  | Reset
  | ClockNow
  | ClockPause
  | ClockResume
  | ClockReset

fun step :: "action \<Rightarrow> timeline \<Rightarrow> timeline option" where
  "step Frame s = frame s"
| "step (Animate inits) s = Some (snd (Timeline_enqueue inits s))"
| "step (Revoke r) s = Node_revoke r s"
| "step Pause s = Some (Timeline_pause s)"
| "step Resume s = Some (Timeline_resume s)"
| "step Start s = Some (Timeline_start s)"
| "step Reset s = Some (Timeline_reset s)"
| "step ClockNow s = Some (snd (Timeline_clock_now s))"
| "step ClockPause s = Some (let (c, w) = Clock_pause (clock s) (world s) in s\<lparr>clock := c, world := w\<rparr>)"
| "step ClockResume s = Some (let (c, w) = Clock_resume (clock s) (world s) in s\<lparr>clock := c, world := w\<rparr>)"
| "step ClockReset s = Some (s\<lparr>clock := Clock_reset (clock s)\<rparr>)"

fun run :: "action list \<Rightarrow> timeline \<Rightarrow> timeline option" where
  "run [] s = Some s"
| "run (a # as) s = (case step a s of None \<Rightarrow> None | Some s1 \<Rightarrow> run as s1)"

lemma step_dormant:
  assumes "step a s = Some s'" "dormant m s"
  shows "dormant m s' \<and> calls_of m s' = calls_of m s"
proof (cases a)
  case Frame
  with assms show ?thesis by (simp add: frame_dormant)
next
  case (Animate inits)
  with assms show ?thesis using enqueue_dormant [of m s inits] by auto
next
  case (Revoke r)
  with assms show ?thesis by (simp add: revoke_dormant)
next
  case Pause
  with assms show ?thesis using driver_only_dormant [OF driver_only_pause, of m s] by auto
next
  case Resume
  with assms show ?thesis using driver_only_dormant [OF driver_only_resume, of m s] by auto
next
  case Start
  with assms show ?thesis using driver_only_dormant [OF driver_only_start, of m s] by auto
next
  case Reset
  with assms show ?thesis using driver_only_dormant [OF driver_only_reset, of m s] by auto
next
  case ClockNow
  have "driver_only s (snd (Timeline_clock_now s))"
    by (simp add: driver_only_def Timeline_clock_now_def split_beta)
  with ClockNow assms show ?thesis using driver_only_dormant by auto
next
  case ClockPause
  have "driver_only s (let (c, w) = Clock_pause (clock s) (world s) in s\<lparr>clock := c, world := w\<rparr>)"
    by (simp add: driver_only_def split_beta)
  with ClockPause assms show ?thesis using driver_only_dormant by auto
next
  case ClockResume
  have "driver_only s (let (c, w) = Clock_resume (clock s) (world s) in s\<lparr>clock := c, world := w\<rparr>)"
    by (simp add: driver_only_def split_beta)
  with ClockResume assms show ?thesis using driver_only_dormant by auto
next
  case ClockReset
  have "driver_only s (s\<lparr>clock := Clock_reset (clock s)\<rparr>)"
    by (simp add: driver_only_def)
  with ClockReset assms show ?thesis using driver_only_dormant by auto
qed

lemma run_dormant:
  "run acts s = Some s' \<Longrightarrow> dormant m s \<Longrightarrow> dormant m s' \<and> calls_of m s' = calls_of m s"
proof (induction acts arbitrary: s)
  case Nil
  then show ?case by simp
next
  case (Cons a acts)
  from Cons.prems(1) obtain s1 where s1: "step a s = Some s1" "run acts s1 = Some s'"
    by (auto split: option.splits)
  from step_dormant [OF s1(1) Cons.prems(2)] Cons.IH [OF s1(2)] show ?case
    by simp
qed

text \<open>
  C7. \<open>cs\<close> is the static chain of the handle \<open>r\<close>, \<open>xs\<close> the active-slot list. The nodes
  of the chain that are not yet completed are \<open>occ @ fut\<close>: occupants of the list first,
  then phases that never were linked (no neighbour links, not in the list), which is how
  \<open>enqueue\<close> and promotion leave a chain. Then \<open>revoke()\<close> returns; every node of the
  chain is completed afterwards; the occupants are unlinked from the list, and when a
  never-linked phase is revoked the head of the list is unset, so that no traversal meets a
  node of the chain; the only callbacks fired are completion callbacks of the chain; a
  deferred changes from pending to resolved or not at all, so none is rejected; when the
  terminal node was not completed and its signal was pending, its callback fires and the
  signal is resolved; and whatever is done to the scheduler afterwards (\<open>run\<close>), no effect
  and no timing of a node of the chain is invoked again.
\<close>

theorem Node_revoke_resolves:
  assumes "chain (heap s) (Some r) cs" "dll s xs"
    and "filter (\<lambda>c. \<not> Node_completed s c) cs = occ @ fut"
    and "set occ \<subseteq> set xs"
    and "\<forall>c\<in>set fut. c \<notin> set xs \<and> get_prev s c = None \<and> get_next s c = None"
    and "\<forall>c\<in>set cs. c < nextRef s"
  shows "\<exists>s'. Node_revoke r s = Some s' \<and>
      (\<forall>c\<in>set cs. Node_completed s' c) \<and>
      (fut = [] \<longrightarrow> dll s' (filter (\<lambda>x. x \<notin> set occ) xs)) \<and>
      (fut \<noteq> [] \<longrightarrow> t_nextNode s' = None) \<and>
      (\<exists>es. trace s' = trace s @ es \<and> set es \<subseteq> OnCompletedCall ` set cs) \<and>
      (\<forall>d. deferreds s' d = deferreds s d \<or>
           (deferreds s d = Some Pending \<and> deferreds s' d = Some Resolved)) \<and>
      (\<forall>d. \<not> Node_completed s (last cs) \<and> get_onCompleted s (last cs) = Some d \<and>
           deferreds s d = Some Pending \<longrightarrow>
           deferreds s' d = Some Resolved \<and> OnCompletedCall (last cs) \<in> set (trace s')) \<and>
      (\<forall>acts s''. run acts s' = Some s'' \<longrightarrow> (\<forall>c\<in>set cs. calls_of c s'' = calls_of c s))"
proof -
  define s' where "s' = revoke_all cs s"
  have rv: "Node_revoke r s = Some s'"
    using assms(1) by (simp add: s'_def Node_revoke_eq)
  have d: "distinct cs"
    using assms(1) by (rule chain_distinct)
  have hp: "heap s c \<noteq> None" if "c \<in> set cs" for c
    using assms(1) that by (rule chain_heap)
  have ne: "cs \<noteq> []"
    using assms(1) by (cases cs) auto
  have cmp: "\<forall>c\<in>set cs. Node_completed s' c"
    using hp by (simp add: s'_def revoke_all_done)
  have of_cs: "set (occ @ fut) \<subseteq> set cs" "distinct (occ @ fut)"
    "\<forall>c\<in>set (occ @ fut). \<not> Node_completed s c"
    using d unfolding assms(3) [symmetric] by auto
  define s1 where "s1 = revoke_all occ s"
  have split: "s' = revoke_all fut s1"
    unfolding s'_def s1_def using revoke_all_filter [OF d, of s]
    by (simp add: assms(3) revoke_all_append)
  have l1: "dll s1 (filter (\<lambda>x. x \<notin> set occ) xs)"
    and o1: "\<And>y. y \<notin> set xs \<Longrightarrow> get_prev s1 y = get_prev s y \<and> get_next s1 y = get_next s y"
    using revoke_all_linked [OF assms(2,4)] of_cs by (auto simp: s1_def)
  have list0: "fut = [] \<longrightarrow> dll s' (filter (\<lambda>x. x \<notin> set occ) xs)"
    using l1 by (simp add: split)
  have f1: "\<forall>c\<in>set fut. heap s1 c \<noteq> None \<and> \<not> Node_completed s1 c \<and>
      get_prev s1 c = None \<and> get_next s1 c = None"
  proof
    fix c
    assume c: "c \<in> set fut"
    then have "c \<in> set cs" "c \<notin> set occ" "\<not> Node_completed s c"
      using of_cs by auto
    moreover have "c \<notin> set xs" "get_prev s c = None" "get_next s c = None"
      using assms(5) c by auto
    ultimately show "heap s1 c \<noteq> None \<and> \<not> Node_completed s1 c \<and>
        get_prev s1 c = None \<and> get_next s1 c = None"
      using hp o1 by (simp add: s1_def revoke_all_heap revoke_all_done)
  qed
  have "distinct fut"
    using of_cs(2) by simp
  with f1 have "t_nextNode s' = (if fut = [] then t_nextNode s1 else None)"
    unfolding split by (rule revoke_all_unlinked)
  then have list1: "fut \<noteq> [] \<longrightarrow> t_nextNode s' = None"
    by simp
  obtain es where es: "trace s' = trace s @ es" "set es \<subseteq> OnCompletedCall ` set cs"
    using revoke_all_trace [of cs s] by (auto simp: s'_def)
  have st: "\<forall>d. deferreds s' d = deferreds s d \<or>
      (deferreds s d = Some Pending \<and> deferreds s' d = Some Resolved)"
    using revoke_all_settles [of s cs] by (simp add: s'_def settles_def)
  have tmn: "deferreds s' dd = Some Resolved \<and> OnCompletedCall (last cs) \<in> set (trace s')"
    if t: "\<not> Node_completed s (last cs)" "get_onCompleted s (last cs) = Some dd"
      "deferreds s dd = Some Pending" for dd
  proof -
    have cs: "cs = butlast cs @ [last cs]"
      using ne by simp
    then have "last cs \<notin> set (butlast cs)"
      using d by (metis distinct_append distinct.simps(2) disjoint_iff list.set_intros(1))
    moreover have "heap s (last cs) \<noteq> None"
      using hp ne by simp
    ultimately have "deferreds (revoke_all (butlast cs @ [last cs]) s) dd = Some Resolved"
      "OnCompletedCall (last cs) \<in> set (trace (revoke_all (butlast cs @ [last cs]) s))"
      using t by (auto intro: revoke_all_terminal)
    then show ?thesis
      using cs by (simp add: s'_def)
  qed
  have later: "calls_of c s'' = calls_of c s" if r: "run acts s' = Some s''" and c: "c \<in> set cs"
    for acts s'' c
  proof -
    have "dormant c s'"
      using cmp c assms(6) by (simp add: dormant_def s'_def)
    with r have "calls_of c s'' = calls_of c s'"
      using run_dormant by blast
    moreover have "calls_of c s' = calls_of c s"
      using es by (intro calls_of_append) auto
    ultimately show ?thesis
      by simp
  qed
  show ?thesis
    using rv cmp list0 list1 es st tmn later by blast
qed

lemma ex_A_chain:
  "chain (heap ex_A) (Some 0) [0, 1] \<and> dll ex_A [0] \<and>
   filter (\<lambda>c. \<not> Node_completed ex_A c) [0, 1] = [0] @ [1] \<and>
   get_prev ex_A 1 = None \<and> get_next ex_A 1 = None \<and> nextRef ex_A = 2 \<and>
   \<not> Node_completed ex_A 1 \<and> get_onCompleted ex_A 1 = Some 0 \<and>
   deferreds ex_A 0 = Some Pending \<and> calls_of 1 ex_A = []"
  by code_simp

lemma ex_A_revoked_run:
  "map_option (calls_of 1)
     (Option.bind (Node_revoke 0 ex_A)
        (run [Frame, Animate [InitNumber (Fin 100)], Frame, Frame, Frame])) = Some []"
  by code_simp

text \<open>
  Revoking the first phase of the unstarted two-phase chain of \<open>ex_A\<close>: both nodes are
  completed, the signal is resolved, and the effect of the second phase is not invoked by
  any later run; one such run, with a new chain and four frames, is evaluated.
\<close>

theorem Node_revoke_resolves_witness:
  "\<exists>s'. Node_revoke 0 ex_A = Some s' \<and> Node_completed s' 0 \<and> Node_completed s' 1 \<and>
      t_nextNode s' = None \<and> deferreds s' 0 = Some Resolved \<and>
      OnCompletedCall 1 \<in> set (trace s') \<and>
      (\<forall>acts s''. run acts s' = Some s'' \<longrightarrow> calls_of 1 s'' = []) \<and>
      (\<exists>s''. run [Frame, Animate [InitNumber (Fin 100)], Frame, Frame, Frame] s' = Some s'')"
proof -
  have a: "chain (heap ex_A) (Some 0) [0, 1]" "dll ex_A [0]"
    "filter (\<lambda>c. \<not> Node_completed ex_A c) [0, 1] = [0] @ [1]"
    and b: "get_prev ex_A 1 = None" "get_next ex_A 1 = None" "nextRef ex_A = 2"
    and c: "\<not> Node_completed ex_A 1" "get_onCompleted ex_A 1 = Some 0"
      "deferreds ex_A 0 = Some Pending" "calls_of 1 ex_A = []"
    using ex_A_chain by blast+
  have h4: "set [0 :: nat] \<subseteq> set [0]"
    by simp
  have h5: "\<forall>c\<in>set [1 :: nat]. c \<notin> set [0 :: nat] \<and> get_prev ex_A c = None \<and> get_next ex_A c = None"
    using b by simp
  have h6: "\<forall>c\<in>set [0, 1 :: nat]. c < nextRef ex_A"
    using b by simp
  obtain s' where r: "Node_revoke 0 ex_A = Some s'"
    and r1: "\<forall>c\<in>set [0, 1 :: nat]. Node_completed s' c"
    and r2: "[1 :: nat] \<noteq> [] \<longrightarrow> t_nextNode s' = None"
    and r3: "\<forall>d. \<not> Node_completed ex_A (last [0, 1]) \<and> get_onCompleted ex_A (last [0, 1]) = Some d \<and>
           deferreds ex_A d = Some Pending \<longrightarrow>
           deferreds s' d = Some Resolved \<and> OnCompletedCall (last [0, 1]) \<in> set (trace s')"
    and r4: "\<forall>acts s''. run acts s' = Some s'' \<longrightarrow> (\<forall>c\<in>set [0, 1 :: nat]. calls_of c s'' = calls_of c ex_A)"
    using Node_revoke_resolves [OF a h4 h5 h6] by blast
  have 1: "Node_completed s' 0" "Node_completed s' 1" "t_nextNode s' = None"
    using r1 r2 by simp_all
  have 2: "deferreds s' 0 = Some Resolved" "OnCompletedCall 1 \<in> set (trace s')"
    using r3 c by simp_all
  have 3: "\<forall>acts s''. run acts s' = Some s'' \<longrightarrow> calls_of 1 s'' = []"
    using r4 c(4) by simp
  have 4: "\<exists>s''. run [Frame, Animate [InitNumber (Fin 100)], Frame, Frame, Frame] s' = Some s''"
    using ex_A_revoked_run r by (auto simp: bind_eq_Some_conv)
  from r 1 2 3 4 show ?thesis
    by blast
qed

end
